theory Spec2Isabelle
  imports Main "HOL-Library.Word"
begin

section \<open>The operating-system boundary\<close>

text \<open>
  The program talks to the operating system through \<open>os.Open\<close>, \<open>File.Stat\<close>,
  \<open>File.Read\<close>, \<open>os.ReadDir\<close> and \<open>os.Stat\<close>. Each of them either fails with an error
  or delivers a value; a failure is \<open>None\<close> here. \<open>checkErr\<close> and \<open>log.Fatal\<close> end the
  whole process, which is the outcome \<open>Fatal\<close>.
\<close>

type_synonym byte = "8 word"
type_synonym path = string

datatype 'a outcome = Ret 'a | Fatal

text \<open>The error value of a \<open>Read\<close>: \<open>None\<close> is \<open>nil\<close>, \<open>Some EOF\<close> is \<open>io.EOF\<close>.\<close>

datatype ioerr = EOF | IOFault

text \<open>
  An open file is the sequence of results its successive \<open>Read\<close> calls will deliver:
  some bytes with a \<open>nil\<close> error, end of input, or a fault. Once the sequence is used up
  every further \<open>Read\<close> reports end of input. \<open>Stat_Size\<close> is what \<open>Stat().Size()\<close>
  reports for the handle, \<open>None\<close> when \<open>Stat\<close> fails.
\<close>

datatype read_event = Bytes "byte list" | End | Fault

type_synonym stream = "read_event list"

record File =
  Stat_Size :: "nat option"
  content :: stream

text \<open>
  An entry of a directory listing with its two methods, and the three calls that take a
  path: \<open>os.Open\<close>, \<open>os.ReadDir\<close> and \<open>os.Stat\<close>, of whose result the program reads
  \<open>IsDir()\<close> only.
\<close>

record DirEntry =
  Name :: string
  IsDir :: bool

record os =
  os_Open :: "path \<rightharpoonup> File"
  os_ReadDir :: "path \<rightharpoonup> DirEntry list"
  os_Stat :: "path \<rightharpoonup> bool"

text \<open>
  \<open>f.Read(b)\<close> on an \<open>os.File\<close>: returns the count and the error, the buffer with the
  bytes read stored at its front (the rest of the buffer keeps what it held), and the
  stream after the call. A \<open>Read\<close> never delivers more than \<open>len(b)\<close> bytes, and an
  \<open>os.File\<close> reports an error only together with the count 0.
\<close>

fun Read :: "stream \<Rightarrow> byte list \<Rightarrow> (nat \<times> ioerr option) \<times> byte list \<times> stream" where
  "Read [] b = ((0, Some EOF), b, [])"
| "Read (End # s) b = ((0, Some EOF), b, s)"
| "Read (Fault # s) b = ((0, Some IOFault), b, s)"
| "Read (Bytes c # s) b =
     (let d = take (length b) c in ((length d, None), d @ drop (length d) b, s))"

text \<open>A \<open>Read\<close> that succeeds uses up one event of the stream.\<close>

lemma Read_nil_shorter:
  "Read f b = ((n, None), b', f') \<Longrightarrow> length f' < length f"
  by (induction f b rule: Read.induct) (auto simp: Let_def)

section \<open>cmpFiles\<close>

definition CHUNK_SIZE :: nat where
  "CHUNK_SIZE = 4 * 1024"

text \<open>
  The \<open>for\<close> loop of \<open>cmpFiles\<close>, lines 72 to 101. The state is the two buffers, the two
  streams and the number of \<open>Read\<close> calls issued so far; the result is the value returned
  (or \<open>Fatal\<close> for \<open>log.Fatal\<close>) with the final number of \<open>Read\<close> calls.
\<close>

function cmp_loop ::
  "byte list \<Rightarrow> byte list \<Rightarrow> stream \<Rightarrow> stream \<Rightarrow> nat \<Rightarrow> bool outcome \<times> nat" where
  "cmp_loop b1 b2 f1 f2 k =
     (case Read f1 b1 of ((n1, err1), b1', f1') \<Rightarrow>
      case Read f2 b2 of ((n2, err2), b2', f2') \<Rightarrow>
        if err1 = Some EOF \<and> err2 = Some EOF then (Ret True, k + 2)
        else if err1 = Some EOF \<and> err2 = None then (Ret False, k + 2)
        else if err1 = None \<and> err2 = Some EOF then (Ret False, k + 2)
        else if err1 \<noteq> None \<or> err2 \<noteq> None then (Fatal, k + 2)
        else if n1 \<noteq> n2 then (Ret False, k + 2)
        else
          let b1'' = (if n1 < CHUNK_SIZE then take CHUNK_SIZE b1' else b1');
              b2'' = (if n1 < CHUNK_SIZE then take CHUNK_SIZE b2' else b2')
          in if b1'' \<noteq> b2'' then (Ret False, k + 2)
             else cmp_loop b1'' b2'' f1' f2' (k + 2))"
  by pat_completeness auto

termination
  by (relation "measure (\<lambda>(b1, b2, f1, f2, k). length f1)")
     (auto dest: Read_nil_shorter [OF sym])

text \<open>
  \<open>cmpFiles\<close>, lines 48 to 102: open both files, compare the sizes \<open>Stat\<close> reports, then
  run the loop on two fresh zeroed buffers of \<open>CHUNK_SIZE\<close> bytes.
\<close>

definition cmpFiles :: "os \<Rightarrow> path \<Rightarrow> path \<Rightarrow> bool outcome \<times> nat" where
  "cmpFiles sys file1 file2 =
     (case os_Open sys file1 of None \<Rightarrow> (Fatal, 0) | Some f1 \<Rightarrow>
      case Stat_Size f1 of None \<Rightarrow> (Fatal, 0) | Some size1 \<Rightarrow>
      case os_Open sys file2 of None \<Rightarrow> (Fatal, 0) | Some f2 \<Rightarrow>
      case Stat_Size f2 of None \<Rightarrow> (Fatal, 0) | Some size2 \<Rightarrow>
        if size1 \<noteq> size2 then (Ret False, 0)
        else cmp_loop (replicate CHUNK_SIZE (0::byte)) (replicate CHUNK_SIZE (0::byte))
               (content f1) (content f2) 0)"

text \<open>
  A regular file that nobody modifies during the comparison: \<open>Stat\<close> reports its length,
  every \<open>Read\<close> fills the buffer as far as the remaining bytes allow, and after the last
  byte \<open>Read\<close> reports end of input.
\<close>

function chunks :: "byte list \<Rightarrow> stream" where
  "chunks A = (if A = [] then [] else Bytes (take CHUNK_SIZE A) # chunks (drop CHUNK_SIZE A))"
  by pat_completeness auto
termination
  by (relation "measure length") (auto simp: CHUNK_SIZE_def)

definition regular :: "byte list \<Rightarrow> File" where
  "regular A = \<lparr>Stat_Size = Some (length A), content = chunks A\<rparr>"

text \<open>The offset of the first byte at which two sequences differ (the length of their
  common prefix).\<close>

fun first_diff :: "byte list \<Rightarrow> byte list \<Rightarrow> nat" where
  "first_diff (x # xs) (y # ys) = (if x = y then Suc (first_diff xs ys) else 0)"
| "first_diff xs ys = 0"

text \<open>
  The loop as the specification words it, for comparison with \<open>cmp_loop\<close>: the verdict of
  an iteration is taken from the valid prefixes \<open>b1[:n1]\<close> and \<open>b2[:n2]\<close> only. The source
  re-slices both buffers to \<open>CHUNK_SIZE\<close> (lines 92 to 95) and compares them whole.
\<close>

function cmp_loop_prefix ::
  "byte list \<Rightarrow> byte list \<Rightarrow> stream \<Rightarrow> stream \<Rightarrow> nat \<Rightarrow> bool outcome \<times> nat" where
  "cmp_loop_prefix b1 b2 f1 f2 k =
     (case Read f1 b1 of ((n1, err1), b1', f1') \<Rightarrow>
      case Read f2 b2 of ((n2, err2), b2', f2') \<Rightarrow>
        if err1 = Some EOF \<and> err2 = Some EOF then (Ret True, k + 2)
        else if err1 = Some EOF \<and> err2 = None then (Ret False, k + 2)
        else if err1 = None \<and> err2 = Some EOF then (Ret False, k + 2)
        else if err1 \<noteq> None \<or> err2 \<noteq> None then (Fatal, k + 2)
        else if n1 \<noteq> n2 then (Ret False, k + 2)
        else if take n1 b1' \<noteq> take n2 b2' then (Ret False, k + 2)
        else cmp_loop_prefix b1' b2' f1' f2' (k + 2))"
  by pat_completeness auto
termination
  by (relation "measure (\<lambda>(b1, b2, f1, f2, k). length f1)")
     (auto dest: Read_nil_shorter [OF sym])

section \<open>Reports, tasks and the bodies of the goroutines\<close>

text \<open>
  What the program prints, one constructor per \<open>Printf\<close> or \<open>Println\<close> call with the
  arguments of the format: line 107, line 153, lines 156 and 158 (the two words are the
  third and fifth argument), lines 164 and 173, line 190, \<open>pflag.PrintDefaults\<close> of line
  191 (which writes to standard error) and line 211.
\<close>

datatype line =
    Files_differ path path
  | Common_subdirectories path path
  | Is_a_while path string path string
  | Only_in path string
  | Usage
  | Flag_defaults
  | Cannot_compare

text \<open>The two functions that are started with \<open>go\<close>, with their arguments.\<close>

datatype task = DiffFiles path path | DiffDirs path path bool

text \<open>
  A goroutine is the sequence of the effects its body performs, in program order:
  printing a line, \<open>wg.Add(1)\<close>, a \<open>go\<close> statement, \<open>wg.Done()\<close>, \<open>wg.Wait()\<close>, the
  \<open>Read\<close> calls of one \<open>cmpFiles\<close> (their number), and the end of the process with an
  exit status (\<open>os.Exit\<close>, \<open>log.Fatal\<close>, or \<open>main\<close> returning).
\<close>

datatype action =
    Print line
  | Add
  | Go task
  | Done
  | Wait
  | Reads nat
  | Exit nat

text \<open>The local type \<open>d\<close> of \<open>diffDirs\<close>, lines 123 to 126.\<close>

record d =
  e :: DirEntry
  c :: bool

text \<open>The library function \<open>path.Join\<close> is taken as given.\<close>

type_synonym joiner = "path \<Rightarrow> string \<Rightarrow> path"

text \<open>\<open>diffFiles\<close>, lines 105 to 111.\<close>

definition diffFiles :: "os \<Rightarrow> path \<Rightarrow> path \<Rightarrow> action list" where
  "diffFiles sys file1 file2 =
     (case cmpFiles sys file1 file2 of
        (Fatal, n) \<Rightarrow> [Reads n, Exit 1]
      | (Ret eq, n) \<Rightarrow>
          Reads n # (if \<not> eq then [Print (Files_differ file1 file2)] else []) @ [Done])"

text \<open>The loops of lines 128 to 134 that fill a map from the names of a listing.\<close>

fun track :: "DirEntry list \<Rightarrow> (string \<rightharpoonup> d) \<Rightarrow> (string \<rightharpoonup> d)" where
  "track [] fileSet = fileSet"
| "track (f # files) fileSet = track files (fileSet(Name f \<mapsto> \<lparr>e = f, c = False\<rparr>))"

text \<open>
  One iteration of the loop over the first directory, lines 138 to 165: the map after
  the iteration and the effects of the iteration.
\<close>

definition visit ::
  "joiner \<Rightarrow> path \<Rightarrow> path \<Rightarrow> bool \<Rightarrow> DirEntry \<Rightarrow> (string \<rightharpoonup> d) \<Rightarrow>
   (string \<rightharpoonup> d) \<times> action list" where
  "visit Join dir1 dir2 recursive f fileSet2 =
     (let name = Name f in
      case fileSet2 name of
        Some f2 \<Rightarrow>
          let path1 = Join dir1 name;
              path2 = Join dir2 name;
              acts =
                (if \<not> IsDir f \<and> \<not> IsDir (e f2) then [Add, Go (DiffFiles path1 path2)]
                 else if IsDir f \<and> IsDir (e f2) then
                   (if recursive then [Add, Go (DiffDirs path1 path2 True)]
                    else [Print (Common_subdirectories path1 path2)])
                 else if IsDir f \<and> \<not> IsDir (e f2) then
                   [Print (Is_a_while path1 ''directory'' path2 ''file'')]
                 else [Print (Is_a_while path1 ''file'' path2 ''directory'')])
          in (fileSet2(name \<mapsto> f2\<lparr>c := True\<rparr>), acts)
      | None \<Rightarrow> (fileSet2, [Print (Only_in dir1 name)]))"

text \<open>The loop over the first directory, lines 137 to 166.\<close>

fun first_loop ::
  "joiner \<Rightarrow> path \<Rightarrow> path \<Rightarrow> bool \<Rightarrow> DirEntry list \<Rightarrow> (string \<rightharpoonup> d) \<Rightarrow>
   (string \<rightharpoonup> d) \<times> action list" where
  "first_loop Join dir1 dir2 recursive [] fileSet2 = (fileSet2, [])"
| "first_loop Join dir1 dir2 recursive (f # files1) fileSet2 =
     (case visit Join dir1 dir2 recursive f fileSet2 of (fileSet2', acts) \<Rightarrow>
      case first_loop Join dir1 dir2 recursive files1 fileSet2' of (fileSet2'', rest) \<Rightarrow>
        (fileSet2'', acts @ rest))"

text \<open>
  The loop over the second directory, lines 169 to 175. Reading a key that the map does
  not hold gives the zero value, whose \<open>c\<close> is false.
\<close>

fun second_loop :: "path \<Rightarrow> DirEntry list \<Rightarrow> (string \<rightharpoonup> d) \<Rightarrow> action list" where
  "second_loop dir2 [] fileSet2 = []"
| "second_loop dir2 (f # files2) fileSet2 =
     (let name = Name f in
      (if \<not> (case fileSet2 name of Some x \<Rightarrow> c x | None \<Rightarrow> False)
       then [Print (Only_in dir2 name)] else [])
      @ second_loop dir2 files2 fileSet2)"

text \<open>\<open>diffDirs\<close>, lines 115 to 178.\<close>

definition diffDirs :: "joiner \<Rightarrow> os \<Rightarrow> path \<Rightarrow> path \<Rightarrow> bool \<Rightarrow> action list" where
  "diffDirs Join sys dir1 dir2 recursive =
     (case os_ReadDir sys dir1 of None \<Rightarrow> [Exit 1] | Some files1 \<Rightarrow>
      case os_ReadDir sys dir2 of None \<Rightarrow> [Exit 1] | Some files2 \<Rightarrow>
        let fileSet1 = track files1 Map.empty;
            fileSet2 = track files2 Map.empty
        in case first_loop Join dir1 dir2 recursive files1 fileSet2 of (fileSet2', acts) \<Rightarrow>
             acts @ second_loop dir2 files2 fileSet2' @ [Done])"

text \<open>
  \<open>main\<close>, lines 180 to 214, after \<open>pflag.Parse\<close>: \<open>help\<close> and \<open>recursive\<close> are the values
  of the two flags and \<open>args\<close> is \<open>pflag.Args()\<close>.
\<close>

definition main :: "os \<Rightarrow> bool \<Rightarrow> bool \<Rightarrow> string list \<Rightarrow> action list" where
  "main sys help recursive args =
     (if help \<or> length args \<noteq> 2 then [Print Usage, Print Flag_defaults, Exit 0]
      else
        let path1 = args ! 0; path2 = args ! 1 in
        case os_Stat sys path1 of None \<Rightarrow> [Exit 1] | Some stat1 \<Rightarrow>
        case os_Stat sys path2 of None \<Rightarrow> [Exit 1] | Some stat2 \<Rightarrow>
          if \<not> stat1 \<and> \<not> stat2 then [Add, Go (DiffFiles path1 path2), Wait, Exit 0]
          else if stat1 \<and> stat2 then [Add, Go (DiffDirs path1 path2 recursive), Wait, Exit 0]
          else [Print Cannot_compare, Exit 1])"

fun body :: "joiner \<Rightarrow> os \<Rightarrow> task \<Rightarrow> action list" where
  "body Join sys (DiffFiles file1 file2) = diffFiles sys file1 file2"
| "body Join sys (DiffDirs dir1 dir2 recursive) = diffDirs Join sys dir1 dir2 recursive"

section \<open>The running program\<close>

text \<open>
  The state of the process: the counter of the wait group \<open>wg\<close> (line 35), the goroutines
  with what each has left to do (\<open>main\<close> is number 0, a \<open>go\<close> statement adds one at the
  end), the lines printed, the number of \<open>Read\<close> calls issued, the exit status once the
  process has ended, and the history of the effects performed, each with the number of
  its goroutine.
\<close>

record state =
  wg :: int
  threads :: "action list list"
  printed :: "line list"
  reads :: nat
  status :: "nat option"
  trace :: "(nat \<times> action) list"

fun perform :: "joiner \<Rightarrow> os \<Rightarrow> action \<Rightarrow> state \<Rightarrow> state" where
  "perform Join sys (Print l) s = s\<lparr>printed := printed s @ [l]\<rparr>"
| "perform Join sys Add s = s\<lparr>wg := wg s + 1\<rparr>"
| "perform Join sys (Go t) s = s\<lparr>threads := threads s @ [body Join sys t]\<rparr>"
| "perform Join sys Done s = s\<lparr>wg := wg s - 1\<rparr>"
| "perform Join sys Wait s = s"
| "perform Join sys (Reads n) s = s\<lparr>reads := reads s + n\<rparr>"
| "perform Join sys (Exit n) s = s\<lparr>status := Some n\<rparr>"

text \<open>\<open>wg.Wait()\<close> blocks until the counter is zero; nothing else blocks.\<close>

fun enabled :: "state \<Rightarrow> action \<Rightarrow> bool" where
  "enabled s Wait = (wg s = 0)"
| "enabled s a = True"

text \<open>
  One step: while the process has not ended, any goroutine whose next effect is not
  blocked performs it. The goroutines interleave in every possible order.
\<close>

inductive step :: "joiner \<Rightarrow> os \<Rightarrow> state \<Rightarrow> state \<Rightarrow> bool" for Join sys where
  run: "status s = None \<Longrightarrow> i < length (threads s) \<Longrightarrow> threads s ! i = a # rest \<Longrightarrow>
        enabled s a \<Longrightarrow>
        step Join sys s
          (perform Join sys a (s\<lparr>threads := (threads s)[i := rest], trace := trace s @ [(i, a)]\<rparr>))"

inductive reachable :: "joiner \<Rightarrow> os \<Rightarrow> state \<Rightarrow> state \<Rightarrow> bool" for Join sys s0 where
  start: "reachable Join sys s0 s0"
| more: "reachable Join sys s0 s \<Longrightarrow> step Join sys s s' \<Longrightarrow> reachable Join sys s0 s'"

definition init :: "os \<Rightarrow> bool \<Rightarrow> bool \<Rightarrow> string list \<Rightarrow> state" where
  "init sys help recursive args =
     \<lparr>wg = 0, threads = [main sys help recursive args], printed = [], reads = 0,
      status = None, trace = []\<rparr>"

section \<open>The text of the lines\<close>

text \<open>
  \<open>red\<close>, \<open>yellow\<close> and \<open>magenta\<close> (lines 36 to 38) come from the colour library: each
  writes an escape sequence before its argument and one after it, and both are empty
  when colour is switched off. A colour is this pair of sequences.
\<close>

type_synonym colour = "string \<times> string"

definition paint :: "colour \<Rightarrow> string \<Rightarrow> string" where
  "paint col s = fst col @ s @ snd col"

record palette =
  red :: colour
  yellow :: colour
  magenta :: colour

fun render :: "palette \<Rightarrow> line \<Rightarrow> string" where
  "render pal (Files_differ file1 file2) =
     ''Files '' @ file1 @ '' and '' @ file2 @ '' '' @ paint (red pal) ''differ'' @ [CHR 0x0A]"
| "render pal (Common_subdirectories path1 path2) =
     ''Common subdirectories: '' @ path1 @ '' and '' @ path2 @ [CHR 0x0A]"
| "render pal (Is_a_while path1 kind1 path2 kind2) =
     path1 @ '' is a '' @ paint (magenta pal) kind1 @ '' while '' @ path2 @ '' is a '' @
     paint (magenta pal) kind2 @ [CHR 0x0A]"
| "render pal (Only_in dir name) =
     paint (yellow pal) ''Only in'' @ '' '' @ dir @ '': '' @ name @ [CHR 0x0A]"
| "render pal Usage = ''Usage: diff [flags] path1 path2'' @ [CHR 0x0A]"
| "render pal Flag_defaults =
     ''  -h, --help        Print this help.'' @ [CHR 0x0A] @
     ''  -r, --recursive   Recursively compare directories.'' @ [CHR 0x0A]"
| "render pal Cannot_compare = ''Cannot compare between a file and a directory.'' @ [CHR 0x0A]"

section \<open>Notions used to state the properties\<close>

text \<open>The names a list of effects reports as present in \<open>dir\<close> only.\<close>

definition only_in :: "path \<Rightarrow> action list \<Rightarrow> string set" where
  "only_in dir acts = {n. Print (Only_in dir n) \<in> set acts}"

text \<open>The names the map holds as checked.\<close>

definition visited :: "(string \<rightharpoonup> d) \<Rightarrow> string set" where
  "visited fileSet = {n. \<exists>x. fileSet n = Some x \<and> c x}"

text \<open>The effects by which \<open>diffDirs\<close> treats a name found in both directories.\<close>

definition pair_acts :: "joiner \<Rightarrow> path \<Rightarrow> path \<Rightarrow> string \<Rightarrow> action set" where
  "pair_acts Join dir1 dir2 n =
     (let path1 = Join dir1 n; path2 = Join dir2 n in
      {Go (DiffFiles path1 path2), Go (DiffDirs path1 path2 True),
       Print (Common_subdirectories path1 path2),
       Print (Is_a_while path1 ''directory'' path2 ''file''),
       Print (Is_a_while path1 ''file'' path2 ''directory'')})"

fun is_common :: "action \<Rightarrow> bool" where
  "is_common (Print (Common_subdirectories path1 path2)) = True"
| "is_common a = False"

text \<open>The map holds the name as a directory, or as something that is not a directory.\<close>

definition dir_in :: "(string \<rightharpoonup> d) \<Rightarrow> string \<Rightarrow> bool" where
  "dir_in fileSet n = (case fileSet n of Some x \<Rightarrow> IsDir (e x) | None \<Rightarrow> False)"

definition file_in :: "(string \<rightharpoonup> d) \<Rightarrow> string \<Rightarrow> bool" where
  "file_in fileSet n = (case fileSet n of Some x \<Rightarrow> \<not> IsDir (e x) | None \<Rightarrow> False)"

text \<open>Two maps hold the same entries, whatever their marks.\<close>

definition same_e :: "(string \<rightharpoonup> d) \<Rightarrow> (string \<rightharpoonup> d) \<Rightarrow> bool" where
  "same_e m m1 = (\<forall>n. map_option e (m1 n) = map_option e (m n))"

text \<open>
  A barrier per call, read off a history: goroutine number \<open>new\<close> is the next to be
  started, \<open>kids\<close> pairs every goroutine that ran a \<open>go\<close> statement with the goroutine it
  started, and whenever a goroutine performs \<open>wg.Done()\<close> all the goroutines it started
  have performed theirs.
\<close>

fun barrier :: "(nat \<times> action) list \<Rightarrow> nat \<Rightarrow> (nat \<times> nat) list \<Rightarrow> nat list \<Rightarrow> bool" where
  "barrier [] new kids signalled = True"
| "barrier ((p, Go t) # tr) new kids signalled = barrier tr (Suc new) ((p, new) # kids) signalled"
| "barrier ((p, Done) # tr) new kids signalled =
     (list_all (\<lambda>(q, k). q \<noteq> p \<or> k \<in> set signalled) kids \<and>
      barrier tr new kids (p # signalled))"
| "barrier (x # tr) new kids signalled = barrier tr new kids signalled"

definition barrier_respected :: "(nat \<times> action) list \<Rightarrow> bool" where
  "barrier_respected tr = barrier tr 1 [] []"

text \<open>
  What a goroutine with these effects left will still add to the counter of the wait
  group, taken negatively, plus one for every goroutine it will still start and one for
  the end of its own body.
\<close>

fun owed :: "action list \<Rightarrow> int" where
  "owed [] = 0"
| "owed (Add # as) = owed as - 1"
| "owed (Go t # as) = owed as + 1"
| "owed (Done # as) = owed as + 1"
| "owed (Exit n # as) = owed as + 1"
| "owed (Print l # as) = owed as"
| "owed (Wait # as) = owed as"
| "owed (Reads n # as) = owed as"

text \<open>
  The shape of what a goroutine has left: nothing, or effects that end with \<open>wg.Done()\<close>
  or the end of the process, every \<open>wg.Add(1)\<close> directly before its \<open>go\<close> statement.
\<close>

fun wellformed :: "action list \<Rightarrow> bool" where
  "wellformed [] = True"
| "wellformed [Done] = True"
| "wellformed [Exit n] = True"
| "wellformed (Add # Go t # as) = (as \<noteq> [] \<and> wellformed as)"
| "wellformed (Go t # as) = (as \<noteq> [] \<and> wellformed as)"
| "wellformed (Print l # as) = (as \<noteq> [] \<and> wellformed as)"
| "wellformed (Wait # as) = (as \<noteq> [] \<and> wellformed as)"
| "wellformed (Reads n # as) = (as \<noteq> [] \<and> wellformed as)"
| "wellformed as = False"

fun neutral :: "action list \<Rightarrow> bool" where
  "neutral [] = True"
| "neutral (Add # Go t # as) = neutral as"
| "neutral (Print l # as) = neutral as"
| "neutral (Wait # as) = neutral as"
| "neutral (Reads n # as) = neutral as"
| "neutral as = False"

text \<open>The counter of the wait group agrees with what the goroutines have left.\<close>

definition balanced :: "state \<Rightarrow> bool" where
  "balanced s = ((\<forall>t \<in> set (threads s). wellformed t) \<and>
     (status s = None \<longrightarrow> wg s + 1 = sum_list (map owed (threads s))))"

text \<open>
  The states of a process whose only goroutine prints the lines \<open>ls\<close> and then ends the
  process with status \<open>n\<close>: after \<open>k\<close> lines, and after the end.
\<close>

definition straight :: "line list \<Rightarrow> nat \<Rightarrow> nat \<Rightarrow> state" where
  "straight ls n k =
     \<lparr>wg = 0, threads = [map Print (drop k ls) @ [Exit n]], printed = take k ls, reads = 0,
      status = None, trace = map (\<lambda>l. (0, Print l)) (take k ls)\<rparr>"

definition finished :: "line list \<Rightarrow> nat \<Rightarrow> state" where
  "finished ls n =
     \<lparr>wg = 0, threads = [[]], printed = ls, reads = 0, status = Some n,
      trace = map (\<lambda>l. (0, Print l)) ls @ [(0, Exit n)]\<rparr>"

section \<open>Concrete systems for the worked instances\<close>

text \<open>Two paths \<open>a\<close> and \<open>b\<close> naming two files, given as open-file behaviours.\<close>

definition sys1 :: "File \<Rightarrow> File \<Rightarrow> os" where
  "sys1 f1 f2 =
     \<lparr>os_Open = [''a'' \<mapsto> f1, ''b'' \<mapsto> f2],
      os_ReadDir = Map.empty,
      os_Stat = [''a'' \<mapsto> False, ''b'' \<mapsto> False]\<rparr>"

text \<open>The same with two regular files of the given contents.\<close>

definition sys0 :: "byte list \<Rightarrow> byte list \<Rightarrow> os" where
  "sys0 A B = sys1 (regular A) (regular B)"

text \<open>Joining a directory and a name with a slash.\<close>

definition slash :: joiner where
  "slash dir name = dir @ ''/'' @ name"

text \<open>Two directories \<open>l\<close> and \<open>r\<close> with four entries each, and a file \<open>f\<close>.\<close>

definition left_listing :: "DirEntry list" where
  "left_listing =
     [\<lparr>Name = ''a.txt'', IsDir = False\<rparr>, \<lparr>Name = ''b'', IsDir = True\<rparr>,
      \<lparr>Name = ''sub'', IsDir = True\<rparr>, \<lparr>Name = ''x'', IsDir = False\<rparr>]"

definition right_listing :: "DirEntry list" where
  "right_listing =
     [\<lparr>Name = ''a.txt'', IsDir = False\<rparr>, \<lparr>Name = ''b'', IsDir = False\<rparr>,
      \<lparr>Name = ''sub'', IsDir = True\<rparr>, \<lparr>Name = ''y'', IsDir = True\<rparr>]"

definition flat :: os where
  "flat =
     \<lparr>os_Open = Map.empty,
      os_ReadDir = [''l'' \<mapsto> left_listing, ''r'' \<mapsto> right_listing],
      os_Stat = [''l'' \<mapsto> True, ''r'' \<mapsto> True, ''f'' \<mapsto> False]\<rparr>"

text \<open>
  Two directories \<open>l\<close> and \<open>r\<close> that each hold one empty directory \<open>sub\<close>, a history of
  the recursive run on them, and two of its states: the task for \<open>l\<close> and \<open>r\<close> has
  performed \<open>wg.Done()\<close> and the task for the two \<open>sub\<close> has not; both have.
\<close>

definition nested :: os where
  "nested =
     \<lparr>os_Open = Map.empty,
      os_ReadDir = [''l'' \<mapsto> [\<lparr>Name = ''sub'', IsDir = True\<rparr>],
                    ''r'' \<mapsto> [\<lparr>Name = ''sub'', IsDir = True\<rparr>],
                    ''l/sub'' \<mapsto> [], ''r/sub'' \<mapsto> []],
      os_Stat = [''l'' \<mapsto> True, ''r'' \<mapsto> True]\<rparr>"

definition nested_trace :: "(nat \<times> action) list" where
  "nested_trace =
     [(0, Add), (0, Go (DiffDirs ''l'' ''r'' True)),
      (1, Add), (1, Go (DiffDirs ''l/sub'' ''r/sub'' True)), (1, Done)]"

definition parent_signalled :: state where
  "parent_signalled =
     \<lparr>wg = 1, threads = [[Wait, Exit 0], [], [Done]], printed = [], reads = 0, status = None,
      trace = nested_trace\<rparr>"

definition all_signalled :: state where
  "all_signalled =
     \<lparr>wg = 0, threads = [[Wait, Exit 0], [], []], printed = [], reads = 0, status = None,
      trace = nested_trace @ [(2, Done)]\<rparr>"


section \<open>Properties of cmpFiles\<close>

declare chunks.simps [simp del]
declare cmp_loop.simps [simp del]
declare cmp_loop_prefix.simps [simp del]

lemma chunks_Nil: "chunks [] = []"
  by (simp add: chunks.simps)

lemma chunks_Cons:
  "A \<noteq> [] \<Longrightarrow> chunks A = Bytes (take CHUNK_SIZE A) # chunks (drop CHUNK_SIZE A)"
  by (subst chunks.simps) simp

lemma length_chunks_drop:
  "A \<noteq> [] \<Longrightarrow> length (chunks A) = Suc (length (chunks (drop CHUNK_SIZE A)))"
  by (subst chunks.simps) simp

lemma Read_length: "Read f b = ((n, err), b', f') \<Longrightarrow> length b' = length b"
  by (induction f b rule: Read.induct) (auto simp: Let_def)

lemma Read_nil_prefix:
  "Read f b = ((n, None), b', f') \<Longrightarrow> b' = take n b' @ drop n b"
  by (induction f b rule: Read.induct) (auto simp: Let_def min_def)

lemma Read_stale:
  "length s = length b \<Longrightarrow> Read f b = ((n, err), b', f') \<Longrightarrow>
   \<exists>s'. Read f s = ((n, err), s', f') \<and> take n s' = take n b'"
  by (induction f b rule: Read.induct) (auto simp: Let_def)

lemma cmp_loop_Nil: "cmp_loop b1 b2 [] [] k = (Ret True, k + 2)"
  by (subst cmp_loop.simps) simp

lemma cmp_loop_first_chunk:
  "length b1 = CHUNK_SIZE \<Longrightarrow> length b2 = CHUNK_SIZE \<Longrightarrow>
   length c1 \<le> CHUNK_SIZE \<Longrightarrow> length c2 \<le> CHUNK_SIZE \<Longrightarrow> c1 \<noteq> c2 \<Longrightarrow>
   cmp_loop b1 b2 (Bytes c1 # r1) (Bytes c2 # r2) k = (Ret False, k + 2)"
  by (subst cmp_loop.simps) (auto simp: Let_def)

lemma cmp_loop_counts_differ:
  "Read f1 b1 = ((n1, err1), b1', f1') \<Longrightarrow> Read f2 b2 = ((n2, err2), b2', f2') \<Longrightarrow>
   err1 \<noteq> Some IOFault \<Longrightarrow> err2 \<noteq> Some IOFault \<Longrightarrow> n1 \<noteq> n2 \<Longrightarrow>
   cmp_loop b1 b2 f1 f2 k = (Ret False, k + 2)"
  apply (subst cmp_loop.simps)
  apply (cases "(f1, b1)" rule: Read.cases; cases "(f2, b2)" rule: Read.cases)
  apply (auto simp: Let_def)
  done

text \<open>The loop treats its two sides alike.\<close>

lemma cmp_loop_sym: "cmp_loop b1 b2 f1 f2 k = cmp_loop b2 b1 f2 f1 k"
proof (induction b1 b2 f1 f2 k rule: cmp_loop.induct)
  case (1 b1 b2 f1 f2 k)
  obtain n1 err1 b1' f1' where r1: "Read f1 b1 = ((n1, err1), b1', f1')"
    by (metis prod_cases3 surj_pair)
  obtain n2 err2 b2' f2' where r2: "Read f2 b2 = ((n2, err2), b2', f2')"
    by (metis prod_cases3 surj_pair)
  note IH = "1.IH" [OF r1 [symmetric] refl refl r2 [symmetric] refl refl]
  show ?case
    apply (subst cmp_loop.simps [of b1 b2 f1 f2 k])
    apply (subst cmp_loop.simps [of b2 b1 f2 f1 k])
    using IH
    apply (cases err1; cases err2)
    apply (auto simp: r1 r2 Let_def)
    done
qed

text \<open>
  Whenever the loop goes round again its two buffers are equal as a whole, so the bytes
  beyond the ones just read are the same on both sides and comparing the whole buffers
  gives the verdict of comparing the valid prefixes.
\<close>

lemma cmp_loop_refines:
  "length b = CHUNK_SIZE \<Longrightarrow> length s1 = CHUNK_SIZE \<Longrightarrow> length s2 = CHUNK_SIZE \<Longrightarrow>
   cmp_loop b b f1 f2 k = cmp_loop_prefix s1 s2 f1 f2 k"
proof (induction s1 s2 f1 f2 k arbitrary: b rule: cmp_loop_prefix.induct)
  case (1 s1 s2 f1 f2 k)
  obtain n1 err1 b1' f1' where r1: "Read f1 b = ((n1, err1), b1', f1')"
    by (metis prod_cases3 surj_pair)
  obtain n2 err2 b2' f2' where r2: "Read f2 b = ((n2, err2), b2', f2')"
    by (metis prod_cases3 surj_pair)
  from Read_stale [OF _ r1, of s1] "1.prems" obtain s1' where
    q1: "Read f1 s1 = ((n1, err1), s1', f1')" and p1: "take n1 s1' = take n1 b1'" by auto
  from Read_stale [OF _ r2, of s2] "1.prems" obtain s2' where
    q2: "Read f2 s2 = ((n2, err2), s2', f2')" and p2: "take n2 s2' = take n2 b2'" by auto
  have len: "length b1' = CHUNK_SIZE" "length b2' = CHUNK_SIZE"
    "length s1' = CHUNK_SIZE" "length s2' = CHUNK_SIZE"
    using Read_length [OF r1] Read_length [OF r2] Read_length [OF q1] Read_length [OF q2]
      "1.prems" by simp_all
  have tk: "take CHUNK_SIZE b1' = b1'" "take CHUNK_SIZE b2' = b2'"
    using len by simp_all
  note IH = "1.IH" [OF q1 [symmetric] refl refl q2 [symmetric] refl refl]
  show ?case
  proof (cases "err1 = None \<and> err2 = None \<and> n1 = n2")
    case False
    then show ?thesis
      apply (subst cmp_loop.simps [of b b f1 f2 k])
      apply (subst cmp_loop_prefix.simps [of s1 s2 f1 f2 k])
      apply (cases err1; cases err2)
      apply (auto simp: r1 r2 q1 q2 Let_def)
      done
  next
    case True
    from Read_nil_prefix [of f1 b n1 b1' f1'] r1 True
    have a: "b1' = take n1 b1' @ drop n1 b" by simp
    from Read_nil_prefix [of f2 b n2 b2' f2'] r2 True
    have b: "b2' = take n1 b2' @ drop n1 b" by simp
    have full: "(b1' = b2') = (take n1 s1' = take n1 s2')"
      using a b p1 p2 True by metis
    show ?thesis
    proof (cases "b1' = b2'")
      case F: False
      with full True show ?thesis
        apply (subst cmp_loop.simps [of b b f1 f2 k])
        apply (subst cmp_loop_prefix.simps [of s1 s2 f1 f2 k])
        apply (simp add: r1 r2 q1 q2 Let_def tk)
        done
    next
      case T: True
      have "cmp_loop b1' b1' f1' f2' (k + 2) = cmp_loop_prefix s1' s2' f1' f2' (k + 2)"
        using IH [of b1'] True T full len by simp
      with full True T show ?thesis
        apply (subst cmp_loop.simps [of b b f1 f2 k])
        apply (subst cmp_loop_prefix.simps [of s1 s2 f1 f2 k])
        apply (simp add: r1 r2 q1 q2 Let_def tk)
        done
    qed
  qed
qed

subsection \<open>Regular files\<close>

lemma first_diff_less: "take n A \<noteq> take n B \<Longrightarrow> first_diff A B < n"
proof (induction A B arbitrary: n rule: first_diff.induct)
  case (1 x xs y ys)
  then show ?case by (cases n) auto
qed auto

lemma first_diff_drop:
  "take n A = take n B \<Longrightarrow> n \<le> length A \<Longrightarrow> n \<le> length B \<Longrightarrow>
   first_diff A B = n + first_diff (drop n A) (drop n B)"
proof (induction A B arbitrary: n rule: first_diff.induct)
  case (1 x xs y ys)
  then show ?case by (cases n) auto
qed auto

lemma cmp_loop_chunks_step:
  assumes a: "length A = length B" "A \<noteq> []" "length b = CHUNK_SIZE"
  shows "cmp_loop b b (chunks A) (chunks B) k =
     (if take CHUNK_SIZE A \<noteq> take CHUNK_SIZE B then (Ret False, k + 2)
      else cmp_loop (take CHUNK_SIZE A @ drop (min (length A) CHUNK_SIZE) b)
             (take CHUNK_SIZE A @ drop (min (length A) CHUNK_SIZE) b)
             (chunks (drop CHUNK_SIZE A)) (chunks (drop CHUNK_SIZE B)) (k + 2))"
proof -
  from a have B: "B \<noteq> []" by auto
  show ?thesis
    apply (subst cmp_loop.simps)
    apply (subst chunks_Cons, rule a(2))
    apply (subst chunks_Cons, rule B)
    using a apply (simp add: Let_def min.commute)
    done
qed

text \<open>
  On two regular files of the same length the loop returns whether the contents are
  equal. It issues one \<open>Read\<close> per file and iteration: for equal contents one iteration per
  chunk and a last one that meets the end of both files, for different contents the
  iterations up to the chunk that holds the first difference.
\<close>

lemma cmp_loop_chunks_reads:
  "length A = length B \<Longrightarrow> length b = CHUNK_SIZE \<Longrightarrow>
   cmp_loop b b (chunks A) (chunks B) k =
     (Ret (A = B),
      k + 2 * Suc (if A = B then length (chunks A) else first_diff A B div CHUNK_SIZE))"
proof (induction A arbitrary: B b k rule: chunks.induct)
  case (1 A)
  show ?case
  proof (cases "A = []")
    case True
    with "1.prems" show ?thesis
      by (simp add: chunks_Nil cmp_loop_Nil)
  next
    case False
    let ?b1 = "take CHUNK_SIZE A @ drop (min (length A) CHUNK_SIZE) b"
    have len: "length ?b1 = CHUNK_SIZE"
      using "1.prems" by auto
    note step = cmp_loop_chunks_step [OF "1.prems"(1) False "1.prems"(2), of k]
    show ?thesis
    proof (cases "take CHUNK_SIZE A = take CHUNK_SIZE B")
      case True
      have IH: "cmp_loop ?b1 ?b1 (chunks (drop CHUNK_SIZE A)) (chunks (drop CHUNK_SIZE B)) (k + 2)
            = (Ret (drop CHUNK_SIZE A = drop CHUNK_SIZE B),
               k + 2 + 2 * Suc (if drop CHUNK_SIZE A = drop CHUNK_SIZE B
                  then length (chunks (drop CHUNK_SIZE A))
                  else first_diff (drop CHUNK_SIZE A) (drop CHUNK_SIZE B) div CHUNK_SIZE))"
        using "1.IH" [OF False, of "drop CHUNK_SIZE B" ?b1 "k + 2"] "1.prems" len by simp
      have eq: "A = B \<longleftrightarrow> drop CHUNK_SIZE A = drop CHUNK_SIZE B"
        using True by (metis append_take_drop_id)
      show ?thesis
      proof (cases "A = B")
        case T: True
        with eq IH step True False show ?thesis
          by (simp add: length_chunks_drop)
      next
        case F: False
        have "CHUNK_SIZE \<le> length A"
        proof (rule ccontr)
          assume "\<not> CHUNK_SIZE \<le> length A"
          with True "1.prems" have "A = B" by simp
          with F show False by simp
        qed
        with True "1.prems" have
          "first_diff A B = CHUNK_SIZE + first_diff (drop CHUNK_SIZE A) (drop CHUNK_SIZE B)"
          by (simp add: first_diff_drop)
        moreover have "0 < CHUNK_SIZE" by (simp add: CHUNK_SIZE_def)
        ultimately have "first_diff A B div CHUNK_SIZE =
           Suc (first_diff (drop CHUNK_SIZE A) (drop CHUNK_SIZE B) div CHUNK_SIZE)"
          by (simp add: div_add_self1)
        with eq IH step True F show ?thesis by simp
      qed
    next
      case F: False
      then have "A \<noteq> B" by auto
      moreover from F have "first_diff A B div CHUNK_SIZE = 0"
        using first_diff_less [of CHUNK_SIZE A B] by simp
      ultimately show ?thesis using step F by simp
    qed
  qed
qed

lemma cmpFiles_regular:
  assumes "os_Open sys file1 = Some (regular A)" and "os_Open sys file2 = Some (regular B)"
  shows "cmpFiles sys file1 file2 =
     (Ret (A = B),
      if length A \<noteq> length B then 0
      else 2 * Suc (if A = B then length (chunks A) else first_diff A B div CHUNK_SIZE))"
proof (cases "length A = length B")
  case True
  with assms show ?thesis
    by (simp add: cmpFiles_def regular_def cmp_loop_chunks_reads)
next
  case False
  then have "A \<noteq> B" by auto
  with False assms show ?thesis
    by (simp add: cmpFiles_def regular_def)
qed

section \<open>Claims about cmpFiles\<close>

lemma sys1_Open:
  "os_Open (sys1 f1 f2) ''a'' = Some f1" "os_Open (sys1 f1 f2) ''b'' = Some f2"
  by (simp_all add: sys1_def)

lemma sys0_Open:
  "os_Open (sys0 A B) ''a'' = Some (regular A)" "os_Open (sys0 A B) ''b'' = Some (regular B)"
  by (simp_all add: sys0_def sys1_def)

text \<open>
  Claim C1. When the two paths name regular files holding the byte sequences \<open>A\<close> and
  \<open>B\<close> and no call fails, \<open>cmpFiles\<close> returns true if and only if \<open>A\<close> and \<open>B\<close> have
  the same length and the same byte at every index. The instances of the witness are
  two files that differ in their last byte only (false), two empty files (true) and an
  empty file against a file of one byte (false).
\<close>

theorem cmpFiles_equal_iff:
  assumes "os_Open sys file1 = Some (regular A)" and "os_Open sys file2 = Some (regular B)"
  shows "fst (cmpFiles sys file1 file2) =
           Ret (length A = length B \<and> (\<forall>i < length A. A ! i = B ! i))"
  using cmpFiles_regular [OF assms] by (simp add: list_eq_iff_nth_eq)

theorem cmpFiles_equal_iff_witness:
  "os_Open (sys0 [1, 2, 3] [1, 2, 4]) ''a'' = Some (regular [1, 2, 3]) \<and>
   os_Open (sys0 [1, 2, 3] [1, 2, 4]) ''b'' = Some (regular [1, 2, 4]) \<and>
   fst (cmpFiles (sys0 [1, 2, 3] [1, 2, 4]) ''a'' ''b'') = Ret False \<and>
   fst (cmpFiles (sys0 [] []) ''a'' ''b'') = Ret True \<and>
   fst (cmpFiles (sys0 [] [7]) ''a'' ''b'') = Ret False"
proof -
  note h1 = sys0_Open(1) and h2 = sys0_Open(2)
  have d: "\<not> (\<forall>i < length [1, 2, 3 :: byte]. [1, 2, 3 :: byte] ! i = [1, 2, 4 :: byte] ! i)"
    by (auto intro!: exI [of _ 2])
  show ?thesis
    using h1 h2 d cmpFiles_equal_iff [OF h1 h2, of "[1, 2, 3]" "[1, 2, 4]"]
      cmpFiles_equal_iff [OF h1 h2, of "[]" "[]"]
      cmpFiles_equal_iff [OF h1 h2, of "[]" "[7]"]
    by simp
qed

text \<open>
  Claim C3. The loop of the source, started on two equal buffers of \<open>CHUNK_SIZE\<close> bytes
  as \<open>cmpFiles\<close> starts it, returns for all streams and every number of bytes read what
  the loop returns that compares only the bytes just read, whatever that loop's buffers
  \<open>s1\<close> and \<open>s2\<close> hold beyond them: the stale bytes never change the result. And when the
  two reads of an iteration return different byte counts and neither failed, the
  result is unequal.
\<close>

theorem cmp_loop_valid_prefix:
  assumes "length b = CHUNK_SIZE" and "length s1 = CHUNK_SIZE" and "length s2 = CHUNK_SIZE"
  shows "cmp_loop b b f1 f2 k = cmp_loop_prefix s1 s2 f1 f2 k \<and>
     (fst (fst (Read f1 b)) \<noteq> fst (fst (Read f2 b)) \<longrightarrow>
      snd (fst (Read f1 b)) \<noteq> Some IOFault \<longrightarrow> snd (fst (Read f2 b)) \<noteq> Some IOFault \<longrightarrow>
      cmp_loop b b f1 f2 k = (Ret False, k + 2))"
proof -
  obtain n1 err1 b1' f1' where r1: "Read f1 b = ((n1, err1), b1', f1')"
    by (metis prod_cases3 surj_pair)
  obtain n2 err2 b2' f2' where r2: "Read f2 b = ((n2, err2), b2', f2')"
    by (metis prod_cases3 surj_pair)
  show ?thesis
    using cmp_loop_refines [OF assms] cmp_loop_counts_differ [OF r1 r2, of k]
    by (simp add: r1 r2)
qed

theorem cmp_loop_valid_prefix_witness:
  "length (replicate CHUNK_SIZE (0::byte)) = CHUNK_SIZE \<and>
   length (replicate CHUNK_SIZE (1::byte)) = CHUNK_SIZE \<and>
   length (replicate CHUNK_SIZE (2::byte)) = CHUNK_SIZE \<and>
   cmp_loop (replicate CHUNK_SIZE 0) (replicate CHUNK_SIZE 0) [Bytes [5, 6]] [Bytes [5, 6]] 0
     = (Ret True, 4) \<and>
   cmp_loop (replicate CHUNK_SIZE 0) (replicate CHUNK_SIZE 0) [Bytes [5, 6]] [Bytes [5]] 0
     = (Ret False, 2)"
proof -
  have l: "length (replicate CHUNK_SIZE (x::byte)) = CHUNK_SIZE" for x by simp
  have p: "cmp_loop_prefix (replicate CHUNK_SIZE 1) (replicate CHUNK_SIZE 2)
             [Bytes [5, 6]] [Bytes [5, 6]] 0 = (Ret True, 4)"
    by (simp add: cmp_loop_prefix.simps Let_def CHUNK_SIZE_def)
  have r: "fst (fst (Read [Bytes [5, 6]] (replicate CHUNK_SIZE 0))) \<noteq>
           fst (fst (Read [Bytes [5]] (replicate CHUNK_SIZE 0)))"
     "snd (fst (Read [Bytes [5, 6]] (replicate CHUNK_SIZE 0))) \<noteq> Some IOFault"
     "snd (fst (Read [Bytes [5]] (replicate CHUNK_SIZE 0))) \<noteq> Some IOFault"
    by (simp_all add: Let_def CHUNK_SIZE_def)
  note t1 = cmp_loop_valid_prefix [OF l l l, where ?x3 = 0 and ?x2 = 1 and ?x1 = 2
      and ?f1.0 = "[Bytes [5, 6]]" and ?f2.0 = "[Bytes [5, 6]]" and k = 0]
  note t2 = cmp_loop_valid_prefix [OF l l l, where ?x3 = 0 and ?x2 = 1 and ?x1 = 2
      and ?f1.0 = "[Bytes [5, 6]]" and ?f2.0 = "[Bytes [5]]" and k = 0]
  have a: "cmp_loop (replicate CHUNK_SIZE 0) (replicate CHUNK_SIZE 0)
             [Bytes [5, 6]] [Bytes [5, 6]] 0 = (Ret True, 4)"
    using t1 [THEN conjunct1] p by simp
  have b: "cmp_loop (replicate CHUNK_SIZE 0) (replicate CHUNK_SIZE 0)
             [Bytes [5, 6]] [Bytes [5]] 0 = (Ret False, 2)"
    using t2 [THEN conjunct2] r by simp
  show ?thesis
    using l a b by simp
qed

text \<open>
  Claim C5. With both files open and their sizes known: when the sizes differ,
  \<open>cmpFiles\<close> returns unequal and has issued no \<open>Read\<close>; when the sizes agree and the
  first chunks the two streams deliver differ, it returns unequal after one \<open>Read\<close> per
  file, whatever the streams hold after them; and for two regular files of one length
  and different contents it returns unequal after one \<open>Read\<close> per file for every chunk
  up to the one holding the first difference, and none beyond it.
\<close>

theorem cmpFiles_short_circuit:
  assumes "os_Open sys file1 = Some f1" and "os_Open sys file2 = Some f2"
    and "Stat_Size f1 = Some size1" and "Stat_Size f2 = Some size2"
  shows "(size1 \<noteq> size2 \<longrightarrow> cmpFiles sys file1 file2 = (Ret False, 0)) \<and>
     (size1 = size2 \<longrightarrow> content f1 = Bytes c1 # r1 \<longrightarrow> content f2 = Bytes c2 # r2 \<longrightarrow>
        length c1 \<le> CHUNK_SIZE \<longrightarrow> length c2 \<le> CHUNK_SIZE \<longrightarrow> c1 \<noteq> c2 \<longrightarrow>
        cmpFiles sys file1 file2 = (Ret False, 2)) \<and>
     (f1 = regular A \<longrightarrow> f2 = regular B \<longrightarrow> length A = length B \<longrightarrow> A \<noteq> B \<longrightarrow>
        cmpFiles sys file1 file2 = (Ret False, 2 * Suc (first_diff A B div CHUNK_SIZE)))"
  using assms cmpFiles_regular [of sys file1 A file2 B]
  by (auto simp: cmpFiles_def cmp_loop_first_chunk)

theorem cmpFiles_short_circuit_witness:
  "cmpFiles (sys1 (regular [1, 2]) (regular [1, 2, 3])) ''a'' ''b'' = (Ret False, 0) \<and>
   cmpFiles (sys1 (regular [9, 2, 3]) (regular [1, 2, 3])) ''a'' ''b'' = (Ret False, 2) \<and>
   cmpFiles (sys1 \<lparr>Stat_Size = Some 3, content = [Bytes [9], Bytes [2, 3]]\<rparr>
                  \<lparr>Stat_Size = Some 3, content = [Bytes [1], Bytes [2, 3]]\<rparr>) ''a'' ''b''
     = (Ret False, 2)"
proof -
  note o = sys1_Open
  have s: "Stat_Size (regular A) = Some (length A)" for A
    by (simp add: regular_def)
  have t: "Stat_Size \<lparr>Stat_Size = Some 3, content = cs\<rparr> = Some 3" for cs :: stream
    by simp
  have "cmpFiles (sys1 (regular [1, 2]) (regular [1, 2, 3])) ''a'' ''b'' = (Ret False, 0)"
    using cmpFiles_short_circuit [OF o s s, of "[1, 2]" "[1, 2, 3]"] by simp
  moreover
  have "cmpFiles (sys1 (regular [9, 2, 3]) (regular [1, 2, 3])) ''a'' ''b'' = (Ret False, 2)"
    using cmpFiles_short_circuit [OF o s s, of "[9, 2, 3]" "[1, 2, 3]" _ _ _ _ "[9, 2, 3]" "[1, 2, 3]"]
    by simp
  moreover
  have "cmpFiles (sys1 \<lparr>Stat_Size = Some 3, content = [Bytes [9], Bytes [2, 3]]\<rparr>
                  \<lparr>Stat_Size = Some 3, content = [Bytes [1], Bytes [2, 3]]\<rparr>) ''a'' ''b''
     = (Ret False, 2)"
    using cmpFiles_short_circuit [OF o t t, of "[Bytes [9], Bytes [2, 3]]" "[Bytes [1], Bytes [2, 3]]"
       "[9]" "[Bytes [2, 3]]" "[1]" "[Bytes [2, 3]]"]
    by (simp add: CHUNK_SIZE_def)
  ultimately show ?thesis by simp
qed

text \<open>
  Claim C10. \<open>cmpFiles\<close> is symmetric: called on the two paths in either order it
  returns the same result (and issues the same number of reads), for every state of
  the file system, failures included.
\<close>

theorem cmpFiles_symmetric: "cmpFiles sys file1 file2 = cmpFiles sys file2 file1"
  by (auto simp: cmpFiles_def cmp_loop_sym split: option.splits)

theorem cmpFiles_symmetric_witness:
  "cmpFiles (sys0 [1, 2, 3] [1, 2, 4]) ''a'' ''b'' = (Ret False, 2) \<and>
   cmpFiles (sys0 [1, 2, 3] [1, 2, 4]) ''b'' ''a'' = (Ret False, 2)"
proof -
  have "cmpFiles (sys0 [1, 2, 3] [1, 2, 4]) ''a'' ''b'' = (Ret False, 2)"
    using cmpFiles_regular [OF sys0_Open, of "[1, 2, 3]" "[1, 2, 4]"]
    by (simp add: CHUNK_SIZE_def)
  then show ?thesis
    using cmpFiles_symmetric [of "sys0 [1, 2, 3] [1, 2, 4]" "''a''" "''b''"] by simp
qed


section \<open>The two loops of diffDirs\<close>

lemma dom_track: "dom (track files m) = dom m \<union> Name ` set files"
  by (induction files arbitrary: m) auto

lemma visited_upd: "visited (m(n \<mapsto> \<lparr>e = f, c = False\<rparr>)) \<subseteq> visited m"
  by (auto simp: visited_def split: if_splits)

lemma visited_track: "visited (track files m) \<subseteq> visited m"
proof (induction files arbitrary: m)
  case Nil
  then show ?case by simp
next
  case (Cons f files)
  from Cons.IH [of "m(Name f \<mapsto> \<lparr>e = f, c = False\<rparr>)"] visited_upd [of m "Name f" f]
  show ?case unfolding track.simps by (rule order_trans)
qed

lemma visited_track_empty: "visited (track files Map.empty) = {}"
  using visited_track [of files Map.empty] by (simp add: visited_def)

lemma visit_dom: "visit Join dir1 dir2 recursive f m = (m', acts) \<Longrightarrow> dom m' = dom m"
  by (auto simp: visit_def Let_def split: option.splits if_splits)

lemma visit_visited:
  "visit Join dir1 dir2 recursive f m = (m', acts) \<Longrightarrow>
   visited m' = visited m \<union> ({Name f} \<inter> dom m)"
  by (auto simp: visit_def Let_def visited_def split: option.splits if_splits)

lemma visit_acts:
  "visit Join dir1 dir2 recursive f m = (m', acts) \<Longrightarrow>
   (Name f \<notin> dom m \<and> acts = [Print (Only_in dir1 (Name f))]) \<or>
   (Name f \<in> dom m \<and> (\<exists>a \<in> pair_acts Join dir1 dir2 (Name f). acts = [a] \<or> acts = [Add, a]))"
  by (auto simp: visit_def Let_def pair_acts_def split: option.splits if_splits)

lemma first_loop_dom:
  "first_loop Join dir1 dir2 recursive files1 m = (m', acts) \<Longrightarrow> dom m' = dom m"
proof (induction files1 arbitrary: m m' acts)
  case Nil
  then show ?case by simp
next
  case (Cons f files1)
  then show ?case
    by (auto split: prod.splits dest!: visit_dom)
qed

lemma first_loop_visited:
  "first_loop Join dir1 dir2 recursive files1 m = (m', acts) \<Longrightarrow>
   visited m' = visited m \<union> (Name ` set files1 \<inter> dom m)"
proof (induction files1 arbitrary: m m' acts)
  case Nil
  then show ?case by simp
next
  case (Cons f files1)
  obtain m1 a1 where v: "visit Join dir1 dir2 recursive f m = (m1, a1)"
    by (cases "visit Join dir1 dir2 recursive f m")
  obtain m2 a2 where r: "first_loop Join dir1 dir2 recursive files1 m1 = (m2, a2)"
    by (cases "first_loop Join dir1 dir2 recursive files1 m1")
  from Cons.prems v r have "m' = m2" by simp
  with Cons.IH [OF r] visit_visited [OF v] visit_dom [OF v] show ?case by auto
qed

lemma pair_acts_not_Only: "a \<in> pair_acts Join dir1 dir2 n \<Longrightarrow> a \<noteq> Print (Only_in dir m) \<and> a \<noteq> Add"
  by (auto simp: pair_acts_def Let_def)

lemma first_loop_acts:
  "first_loop Join dir1 dir2 recursive files1 m = (m', acts) \<Longrightarrow>
   only_in dir1 acts = Name ` set files1 - dom m \<and>
   (\<forall>n \<in> Name ` set files1 \<inter> dom m. pair_acts Join dir1 dir2 n \<inter> set acts \<noteq> {}) \<and>
   (\<forall>a \<in> set acts. a = Add \<or>
      (\<exists>n \<in> Name ` set files1 - dom m. a = Print (Only_in dir1 n)) \<or>
      (\<exists>n \<in> Name ` set files1 \<inter> dom m. a \<in> pair_acts Join dir1 dir2 n)) \<and>
   length (filter (\<lambda>a. a \<noteq> Add) acts) = length files1"
proof (induction files1 arbitrary: m m' acts)
  case Nil
  then show ?case by (simp add: only_in_def)
next
  case (Cons f files1)
  obtain m1 a1 where v: "visit Join dir1 dir2 recursive f m = (m1, a1)"
    by (cases "visit Join dir1 dir2 recursive f m")
  obtain m2 a2 where r: "first_loop Join dir1 dir2 recursive files1 m1 = (m2, a2)"
    by (cases "first_loop Join dir1 dir2 recursive files1 m1")
  from Cons.prems v r have acts: "acts = a1 @ a2" by simp
  have d: "dom m1 = dom m" by (rule visit_dom [OF v])
  note IH = Cons.IH [OF r, unfolded d]
  from IH have o2: "only_in dir1 a2 = Name ` set files1 - dom m" by blast
  from IH have p2: "\<forall>n \<in> Name ` set files1 \<inter> dom m. pair_acts Join dir1 dir2 n \<inter> set a2 \<noteq> {}"
    by blast
  from IH have q2: "\<forall>a \<in> set a2. a = Add \<or>
      (\<exists>n \<in> Name ` set files1 - dom m. a = Print (Only_in dir1 n)) \<or>
      (\<exists>n \<in> Name ` set files1 \<inter> dom m. a \<in> pair_acts Join dir1 dir2 n)" by blast
  from IH have l2: "length (filter (\<lambda>a. a \<noteq> Add) a2) = length files1" by blast
  have un: "only_in dir1 (a1 @ a2) = only_in dir1 a1 \<union> only_in dir1 a2"
    by (auto simp: only_in_def)
  from visit_acts [OF v] consider
      (alone) "Name f \<notin> dom m" and "a1 = [Print (Only_in dir1 (Name f))]"
    | (paired) a where "Name f \<in> dom m" and "a \<in> pair_acts Join dir1 dir2 (Name f)"
        and "a1 = [a] \<or> a1 = [Add, a]"
    by blast
  then show ?case
  proof cases
    case alone
    then have n: "Name f \<notin> dom m" and a: "a1 = [Print (Only_in dir1 (Name f))]"
      by simp_all
    have "only_in dir1 a1 = {Name f}" by (auto simp: a only_in_def)
    with o2 n un have 1: "only_in dir1 acts = Name ` set (f # files1) - dom m"
      by (auto simp: acts)
    from p2 n have 2: "\<forall>n \<in> Name ` set (f # files1) \<inter> dom m.
        pair_acts Join dir1 dir2 n \<inter> set acts \<noteq> {}"
      by (auto simp: acts)
    from q2 n have 3: "\<forall>a \<in> set acts. a = Add \<or>
      (\<exists>n \<in> Name ` set (f # files1) - dom m. a = Print (Only_in dir1 n)) \<or>
      (\<exists>n \<in> Name ` set (f # files1) \<inter> dom m. a \<in> pair_acts Join dir1 dir2 n)"
      by (auto simp: acts a)
    from l2 have 4: "length (filter (\<lambda>a. a \<noteq> Add) acts) = length (f # files1)"
      by (simp add: acts a)
    from 1 2 3 4 show ?thesis by blast
  next
    case (paired a)
    then have n: "Name f \<in> dom m" and p: "a \<in> pair_acts Join dir1 dir2 (Name f)"
      and a: "a1 = [a] \<or> a1 = [Add, a]"
      by simp_all
    have na: "\<forall>k. a \<noteq> Print (Only_in dir1 k)" "a \<noteq> Add"
      using pair_acts_not_Only [OF p] by auto
    from a na have "only_in dir1 a1 = {}" by (auto simp: only_in_def)
    with o2 n un have 1: "only_in dir1 acts = Name ` set (f # files1) - dom m"
      by (auto simp: acts)
    from a have ain: "a \<in> set acts" by (auto simp: acts)
    have 2: "\<forall>n \<in> Name ` set (f # files1) \<inter> dom m.
        pair_acts Join dir1 dir2 n \<inter> set acts \<noteq> {}"
    proof
      fix k assume k: "k \<in> Name ` set (f # files1) \<inter> dom m"
      show "pair_acts Join dir1 dir2 k \<inter> set acts \<noteq> {}"
      proof (cases "k = Name f")
        case True
        with p ain show ?thesis by blast
      next
        case False
        with k have "k \<in> Name ` set files1 \<inter> dom m" by auto
        with p2 have "pair_acts Join dir1 dir2 k \<inter> set a2 \<noteq> {}" by blast
        then show ?thesis by (auto simp: acts)
      qed
    qed
    have 3: "\<forall>a \<in> set acts. a = Add \<or>
      (\<exists>n \<in> Name ` set (f # files1) - dom m. a = Print (Only_in dir1 n)) \<or>
      (\<exists>n \<in> Name ` set (f # files1) \<inter> dom m. a \<in> pair_acts Join dir1 dir2 n)"
    proof
      fix b assume "b \<in> set acts"
      then consider "b \<in> set a1" | "b \<in> set a2" by (auto simp: acts)
      then show "b = Add \<or>
        (\<exists>n \<in> Name ` set (f # files1) - dom m. b = Print (Only_in dir1 n)) \<or>
        (\<exists>n \<in> Name ` set (f # files1) \<inter> dom m. b \<in> pair_acts Join dir1 dir2 n)"
      proof cases
        case 1
        with a have "b = Add \<or> b = a" by auto
        with p n show ?thesis by auto
      next
        case 2
        with q2 show ?thesis by fastforce
      qed
    qed
    from l2 a na have 4: "length (filter (\<lambda>a. a \<noteq> Add) acts) = length (f # files1)"
      by (auto simp: acts)
    from 1 2 3 4 show ?thesis by blast
  qed
qed

lemma set_second_loop:
  "set (second_loop dir2 files2 m) = (\<lambda>n. Print (Only_in dir2 n)) ` (Name ` set files2 - visited m)"
  by (induction files2) (auto simp: Let_def visited_def split: option.splits)

lemma length_second_loop:
  "length (second_loop dir2 files2 m) = length (filter (\<lambda>f. Name f \<notin> visited m) files2)"
  by (induction files2) (auto simp: Let_def visited_def split: option.splits)

text \<open>
  Claim C2. For any two listings, with \<open>L\<close> and \<open>R\<close> the sets of their names, the two
  loops of \<open>diffDirs\<close> put every name in exactly one class. The names the first loop
  reports as only in the first directory are \<open>L - R\<close>, the names the second loop reports
  as only in the second are \<open>R - L\<close>, and the names marked as checked are \<open>L \<inter> R\<close>.
  Every name of \<open>L \<inter> R\<close> is treated by the first loop as a pair (files compared,
  directories entered or noted, or a type mismatch printed), every effect of the first
  loop belongs to a name of its class, the second loop does nothing but report the names
  of \<open>R - L\<close>, so that a matched name is never reported as only in the second directory,
  each entry of the first listing gives one report and each entry of the second whose
  name is not in \<open>L\<close> gives one. The three classes are pairwise disjoint and cover
  \<open>L \<union> R\<close>.
\<close>

theorem reconciliation_partition:
  assumes "first_loop Join dir1 dir2 recursive files1 (track files2 Map.empty) = (fileSet2', acts1)"
    and "second_loop dir2 files2 fileSet2' = acts2"
    and "L = Name ` set files1" and "R = Name ` set files2"
  shows "only_in dir1 acts1 = L - R \<and> only_in dir2 acts2 = R - L \<and> visited fileSet2' = L \<inter> R \<and>
     set acts2 = (\<lambda>n. Print (Only_in dir2 n)) ` (R - L) \<and>
     (\<forall>n \<in> L \<inter> R. pair_acts Join dir1 dir2 n \<inter> set acts1 \<noteq> {}) \<and>
     (\<forall>a \<in> set acts1. a = Add \<or> (\<exists>n \<in> L - R. a = Print (Only_in dir1 n)) \<or>
        (\<exists>n \<in> L \<inter> R. a \<in> pair_acts Join dir1 dir2 n)) \<and>
     length (filter (\<lambda>a. a \<noteq> Add) acts1) = length files1 \<and>
     length acts2 = length (filter (\<lambda>f. Name f \<notin> L) files2) \<and>
     only_in dir1 acts1 \<inter> only_in dir2 acts2 = {} \<and>
     only_in dir1 acts1 \<inter> visited fileSet2' = {} \<and>
     only_in dir2 acts2 \<inter> visited fileSet2' = {} \<and>
     only_in dir1 acts1 \<union> only_in dir2 acts2 \<union> visited fileSet2' = L \<union> R"
proof -
  have dm: "dom (track files2 Map.empty) = R"
    by (simp add: dom_track assms)
  note A = first_loop_acts [OF assms(1), unfolded dm, folded assms(3)]
  have V: "visited fileSet2' = L \<inter> R"
    using first_loop_visited [OF assms(1)] by (simp add: visited_track_empty dm assms)
  have S: "set acts2 = (\<lambda>n. Print (Only_in dir2 n)) ` (R - L)"
    using set_second_loop [of dir2 files2 fileSet2'] assms V by auto
  have O2: "only_in dir2 acts2 = R - L"
    by (auto simp: only_in_def S)
  have Len: "length acts2 = length (filter (\<lambda>f. Name f \<notin> L) files2)"
  proof -
    have "filter (\<lambda>f. Name f \<notin> visited fileSet2') files2 = filter (\<lambda>f. Name f \<notin> L) files2"
      by (rule filter_cong) (auto simp: V assms)
    then show ?thesis
      using length_second_loop [of dir2 files2 fileSet2'] assms by simp
  qed
  from A have O1: "only_in dir1 acts1 = L - R" by blast
  have D: "only_in dir1 acts1 \<inter> only_in dir2 acts2 = {}"
     "only_in dir1 acts1 \<inter> visited fileSet2' = {}"
     "only_in dir2 acts2 \<inter> visited fileSet2' = {}"
     "only_in dir1 acts1 \<union> only_in dir2 acts2 \<union> visited fileSet2' = L \<union> R"
    unfolding O1 O2 V by blast+
  from A O2 V S Len D show ?thesis by blast
qed

section \<open>Reports for names found in both directories\<close>

lemma same_e_refl: "same_e m m"
  by (simp add: same_e_def)

lemma visit_same_e:
  "same_e m m1 \<Longrightarrow> visit Join dir1 dir2 recursive f m1 = (m2, acts) \<Longrightarrow>
   same_e m m2 \<and> acts = snd (visit Join dir1 dir2 recursive f m)"
proof -
  assume s: "same_e m m1" and v: "visit Join dir1 dir2 recursive f m1 = (m2, acts)"
  from s have k: "map_option e (m1 (Name f)) = map_option e (m (Name f))"
    by (simp add: same_e_def)
  show ?thesis
  proof (cases "m1 (Name f)")
    case None
    with k have "m (Name f) = None" by simp
    with None v s show ?thesis by (auto simp: visit_def Let_def)
  next
    case (Some x)
    with k obtain y where y: "m (Name f) = Some y" "e y = e x" by (cases "m (Name f)") auto
    from Some v have m2: "m2 = m1(Name f \<mapsto> x\<lparr>c := True\<rparr>)"
      by (auto simp: visit_def Let_def)
    from s Some y have "same_e m m2"
      by (auto simp: same_e_def m2)
    moreover from Some y v have "acts = snd (visit Join dir1 dir2 recursive f m)"
      by (auto simp: visit_def Let_def)
    ultimately show ?thesis by simp
  qed
qed

lemma first_loop_concat_gen:
  "same_e m m1 \<Longrightarrow> first_loop Join dir1 dir2 recursive files1 m1 = (m', acts) \<Longrightarrow>
   acts = concat (map (\<lambda>f. snd (visit Join dir1 dir2 recursive f m)) files1)"
proof (induction files1 arbitrary: m1 m' acts)
  case Nil
  then show ?case by simp
next
  case (Cons f files1)
  obtain m2 a1 where v: "visit Join dir1 dir2 recursive f m1 = (m2, a1)"
    by (cases "visit Join dir1 dir2 recursive f m1")
  obtain m3 a2 where r: "first_loop Join dir1 dir2 recursive files1 m2 = (m3, a2)"
    by (cases "first_loop Join dir1 dir2 recursive files1 m2")
  from Cons.prems v r have acts: "acts = a1 @ a2" by simp
  from visit_same_e [OF Cons.prems(1) v] have s: "same_e m m2"
    and a1: "a1 = snd (visit Join dir1 dir2 recursive f m)" by simp_all
  from Cons.IH [OF s r] acts a1 show ?case by simp
qed

lemma first_loop_concat:
  "first_loop Join dir1 dir2 recursive files1 m = (m', acts) \<Longrightarrow>
   acts = concat (map (\<lambda>f. snd (visit Join dir1 dir2 recursive f m)) files1)"
  by (rule first_loop_concat_gen [OF same_e_refl])

lemma concat_map_if:
  "concat (map (\<lambda>x. if P x then [h x] else []) xs) = map h (filter P xs)"
  by (induction xs) auto

lemma filter_concat_map:
  "filter P (concat (map g xs)) = concat (map (\<lambda>x. filter P (g x)) xs)"
  by (induction xs) auto

lemma visit_common:
  "filter is_common (snd (visit Join dir1 dir2 False f m)) =
     (if IsDir f \<and> dir_in m (Name f)
      then [Print (Common_subdirectories (Join dir1 (Name f)) (Join dir2 (Name f)))] else [])"
  by (auto simp: visit_def Let_def dir_in_def split: option.splits)

lemma visit_Go:
  "Go t \<in> set (snd (visit Join dir1 dir2 False f m)) \<Longrightarrow>
   \<not> IsDir f \<and> file_in m (Name f) \<and> t = DiffFiles (Join dir1 (Name f)) (Join dir2 (Name f))"
  by (auto simp: visit_def Let_def file_in_def split: option.splits if_splits)

lemma diffFiles_no_Go: "Go t \<notin> set (diffFiles sys file1 file2)"
  by (auto simp: diffFiles_def split: prod.splits outcome.splits)

lemma one_entry_per_name:
  "distinct (map Name xs) \<Longrightarrow> f \<in> set xs \<Longrightarrow> P f \<Longrightarrow>
   length (filter (\<lambda>g. Name g = Name f) (filter P xs)) = 1"
proof (induction xs)
  case Nil
  then show ?case by simp
next
  case (Cons x xs)
  show ?case
  proof (cases "x = f")
    case True
    with Cons.prems have "Name f \<notin> Name ` set xs" by simp
    then have "\<forall>g \<in> set xs. Name g \<noteq> Name f" by (metis imageI)
    then have "filter (\<lambda>g. Name g = Name f) (filter P xs) = []"
      by (auto simp: filter_empty_conv)
    with True Cons.prems show ?thesis by simp
  next
    case False
    with Cons.prems have f: "f \<in> set xs" and "Name x \<noteq> Name f" by auto
    with Cons show ?thesis by simp
  qed
qed

text \<open>
  Claim C8. In a run of \<open>diffDirs\<close> without recursion the lines "Common
  subdirectories" are, in order, one for every entry of the first listing that is a
  directory and whose name the second listing holds as a directory, and no others; with
  unique names in the first listing that is exactly one line for each such name. Nothing
  is entered: every goroutine the run starts is a \<open>diffFiles\<close> on an entry of the first
  listing that is not a directory on either side, and a \<open>diffFiles\<close> starts nothing, so
  no directory below is listed and no file below is opened.
\<close>

theorem common_subdirectories_not_entered:
  assumes "os_ReadDir sys dir1 = Some files1" and "os_ReadDir sys dir2 = Some files2"
    and "fileSet2 = track files2 Map.empty"
  shows "filter is_common (diffDirs Join sys dir1 dir2 False) =
       map (\<lambda>f. Print (Common_subdirectories (Join dir1 (Name f)) (Join dir2 (Name f))))
         (filter (\<lambda>f. IsDir f \<and> dir_in fileSet2 (Name f)) files1) \<and>
     (\<forall>t. Go t \<in> set (diffDirs Join sys dir1 dir2 False) \<longrightarrow>
        (\<exists>f \<in> set files1. \<not> IsDir f \<and> file_in fileSet2 (Name f) \<and>
           t = DiffFiles (Join dir1 (Name f)) (Join dir2 (Name f)) \<and>
           (\<forall>t'. Go t' \<notin> set (body Join sys t)))) \<and>
     (distinct (map Name files1) \<longrightarrow>
        (\<forall>f \<in> set files1. IsDir f \<and> dir_in fileSet2 (Name f) \<longrightarrow>
           length (filter (\<lambda>g. Name g = Name f)
             (filter (\<lambda>f. IsDir f \<and> dir_in fileSet2 (Name f)) files1)) = 1))"
proof -
  obtain m' acts where fl: "first_loop Join dir1 dir2 False files1 fileSet2 = (m', acts)"
    by (cases "first_loop Join dir1 dir2 False files1 fileSet2")
  have dd: "diffDirs Join sys dir1 dir2 False = acts @ second_loop dir2 files2 m' @ [Done]"
    using assms fl by (simp add: diffDirs_def Let_def)
  note cc = first_loop_concat [OF fl]
  have s2: "filter is_common (second_loop dir2 files2 m') = []"
    using set_second_loop [of dir2 files2 m'] by (auto simp: filter_empty_conv)
  have g2: "Go t \<notin> set (second_loop dir2 files2 m')" for t
    using set_second_loop [of dir2 files2 m'] by auto
  have 1: "filter is_common (diffDirs Join sys dir1 dir2 False) =
       map (\<lambda>f. Print (Common_subdirectories (Join dir1 (Name f)) (Join dir2 (Name f))))
         (filter (\<lambda>f. IsDir f \<and> dir_in fileSet2 (Name f)) files1)"
    by (simp add: dd s2 cc filter_concat_map visit_common concat_map_if)
  have 2: "\<exists>f \<in> set files1. \<not> IsDir f \<and> file_in fileSet2 (Name f) \<and>
           t = DiffFiles (Join dir1 (Name f)) (Join dir2 (Name f)) \<and>
           (\<forall>t'. Go t' \<notin> set (body Join sys t))"
    if "Go t \<in> set (diffDirs Join sys dir1 dir2 False)" for t
  proof -
    from that g2 have "Go t \<in> set acts" by (auto simp: dd)
    with cc obtain f where f: "f \<in> set files1"
      and "Go t \<in> set (snd (visit Join dir1 dir2 False f fileSet2))" by auto
    from visit_Go [OF this(2)] f show ?thesis
      by (auto simp: diffFiles_no_Go)
  qed
  have 3: "length (filter (\<lambda>g. Name g = Name f)
             (filter (\<lambda>f. IsDir f \<and> dir_in fileSet2 (Name f)) files1)) = 1"
    if "distinct (map Name files1)" and "f \<in> set files1"
      and "IsDir f \<and> dir_in fileSet2 (Name f)" for f
    using that by (rule one_entry_per_name)
  from 1 2 3 show ?thesis by blast
qed

lemma paint_differs: "paint col ''directory'' @ r \<noteq> paint col ''file'' @ r'"
  by (simp add: paint_def)

text \<open>
  Claim C9. For an entry of the first listing whose name the second listing holds: when
  the first is a directory and the second is not, the loop prints the line for the
  first path as "directory" and the second as "file"; in the opposite case it prints
  the line with the two words exchanged. The texts of the two lines are as the format
  gives them and differ, whatever the colour sequences are.
\<close>

theorem type_mismatch_labels:
  assumes "first_loop Join dir1 dir2 recursive files1 fileSet2 = (fileSet2', acts)"
    and "f \<in> set files1" and "fileSet2 (Name f) = Some f2"
    and "path1 = Join dir1 (Name f)" and "path2 = Join dir2 (Name f)"
  shows "(IsDir f \<and> \<not> IsDir (e f2) \<longrightarrow>
        snd (visit Join dir1 dir2 recursive f fileSet2) =
          [Print (Is_a_while path1 ''directory'' path2 ''file'')] \<and>
        Print (Is_a_while path1 ''directory'' path2 ''file'') \<in> set acts) \<and>
     (\<not> IsDir f \<and> IsDir (e f2) \<longrightarrow>
        snd (visit Join dir1 dir2 recursive f fileSet2) =
          [Print (Is_a_while path1 ''file'' path2 ''directory'')] \<and>
        Print (Is_a_while path1 ''file'' path2 ''directory'') \<in> set acts) \<and>
     render pal (Is_a_while path1 ''directory'' path2 ''file'') =
       path1 @ '' is a '' @ paint (magenta pal) ''directory'' @ '' while '' @ path2 @
       '' is a '' @ paint (magenta pal) ''file'' @ [CHR 0x0A] \<and>
     render pal (Is_a_while path1 ''file'' path2 ''directory'') =
       path1 @ '' is a '' @ paint (magenta pal) ''file'' @ '' while '' @ path2 @
       '' is a '' @ paint (magenta pal) ''directory'' @ [CHR 0x0A] \<and>
     render pal (Is_a_while path1 ''directory'' path2 ''file'') \<noteq>
       render pal (Is_a_while path1 ''file'' path2 ''directory'')"
proof -
  note cc = first_loop_concat [OF assms(1)]
  have sub: "set (snd (visit Join dir1 dir2 recursive f fileSet2)) \<subseteq> set acts"
    using assms(2) by (auto simp: cc)
  have a: "IsDir f \<and> \<not> IsDir (e f2) \<Longrightarrow>
        snd (visit Join dir1 dir2 recursive f fileSet2) =
          [Print (Is_a_while path1 ''directory'' path2 ''file'')]"
    using assms(3-5) by (simp add: visit_def Let_def)
  have b: "\<not> IsDir f \<and> IsDir (e f2) \<Longrightarrow>
        snd (visit Join dir1 dir2 recursive f fileSet2) =
          [Print (Is_a_while path1 ''file'' path2 ''directory'')]"
    using assms(3-5) by (simp add: visit_def Let_def)
  have r: "render pal (Is_a_while path1 ''directory'' path2 ''file'') \<noteq>
       render pal (Is_a_while path1 ''file'' path2 ''directory'')"
    by (simp add: paint_def)
  from a b sub r show ?thesis by auto
qed

section \<open>The wait group\<close>

lemma wf_owed: "wellformed as \<Longrightarrow> as \<noteq> [] \<Longrightarrow> 1 \<le> owed as"
  by (induction as rule: wellformed.induct) auto

lemma wf_owed_nonneg: "wellformed as \<Longrightarrow> 0 \<le> owed as"
  using wf_owed [of as] by (cases "as = []") auto

lemma wf_owed_zero: "wellformed as \<Longrightarrow> owed as = 0 \<Longrightarrow> as = []"
  using wf_owed [of as] by (cases "as = []") auto

lemma wf_tail: "wellformed (a # as) \<Longrightarrow> wellformed as"
  by (induction "a # as" arbitrary: a as rule: wellformed.induct) auto

lemma neutral_append_wf:
  "neutral as \<Longrightarrow> wellformed bs \<Longrightarrow> bs \<noteq> [] \<Longrightarrow> wellformed (as @ bs) \<and> owed (as @ bs) = owed bs"
  by (induction as rule: neutral.induct) auto

lemma neutral_append: "neutral as \<Longrightarrow> neutral bs \<Longrightarrow> neutral (as @ bs)"
  by (induction as rule: neutral.induct) auto

lemma neutral_visit: "neutral (snd (visit Join dir1 dir2 recursive f m))"
  by (auto simp: visit_def Let_def split: option.splits)

lemma neutral_first_loop: "neutral (snd (first_loop Join dir1 dir2 recursive files1 m))"
proof (induction files1 arbitrary: m)
  case Nil
  then show ?case by simp
next
  case (Cons f files1)
  obtain m1 a1 where v: "visit Join dir1 dir2 recursive f m = (m1, a1)"
    by (cases "visit Join dir1 dir2 recursive f m")
  obtain m2 a2 where r: "first_loop Join dir1 dir2 recursive files1 m1 = (m2, a2)"
    by (cases "first_loop Join dir1 dir2 recursive files1 m1")
  from neutral_visit [of Join dir1 dir2 recursive f m] v have "neutral a1" by simp
  moreover from Cons.IH [of m1] r have "neutral a2" by simp
  ultimately show ?case using v r by (simp add: neutral_append)
qed

lemma neutral_second_loop: "neutral (second_loop dir2 files2 m)"
  by (induction files2) (auto simp: Let_def)

lemma diffDirs_wf: "wellformed (diffDirs Join sys dir1 dir2 recursive) \<and> owed (diffDirs Join sys dir1 dir2 recursive) = 1"
proof (cases "os_ReadDir sys dir1")
  case None
  then show ?thesis by (simp add: diffDirs_def)
next
  case (Some files1)
  show ?thesis
  proof (cases "os_ReadDir sys dir2")
    case None
    with Some show ?thesis by (simp add: diffDirs_def)
  next
    case files2: (Some files2)
    obtain m' acts where fl:
      "first_loop Join dir1 dir2 recursive files1 (track files2 Map.empty) = (m', acts)"
      by (cases "first_loop Join dir1 dir2 recursive files1 (track files2 Map.empty)")
    have dd: "diffDirs Join sys dir1 dir2 recursive = (acts @ second_loop dir2 files2 m') @ [Done]"
      using Some files2 fl by (simp add: diffDirs_def Let_def)
    from neutral_first_loop [of Join dir1 dir2 recursive files1 "track files2 Map.empty"] fl
    have "neutral acts" by simp
    then have "neutral (acts @ second_loop dir2 files2 m')"
      by (simp add: neutral_append neutral_second_loop)
    from neutral_append_wf [OF this, of "[Done]"] show ?thesis
      unfolding dd by simp
  qed
qed

lemma diffFiles_wf: "wellformed (diffFiles sys file1 file2) \<and> owed (diffFiles sys file1 file2) = 1"
  by (auto simp: diffFiles_def split: prod.splits outcome.splits)

lemma body_wf: "wellformed (body Join sys t) \<and> owed (body Join sys t) = 1"
  by (cases t) (simp_all add: diffDirs_wf diffFiles_wf)

lemma main_wf: "wellformed (main sys help recursive args) \<and> owed (main sys help recursive args) = 1"
  by (auto simp: main_def Let_def split: option.splits)

lemma sum_list_owed_update:
  "i < length ts \<Longrightarrow>
   sum_list (map owed (ts[i := r])) = sum_list (map owed ts) - owed (ts ! i) + owed r"
proof (induction ts arbitrary: i)
  case Nil
  then show ?case by simp
next
  case (Cons t ts)
  then show ?case by (cases i) auto
qed

lemma step_balanced:
  assumes "step Join sys s s'" and "balanced s"
  shows "balanced s'"
  using assms
proof (cases rule: step.cases)
  case (run i a rest)
  from assms(2) run have wfa: "wellformed (a # rest)"
    by (metis balanced_def nth_mem)
  then have wfr: "wellformed rest" by (rule wf_tail)
  from assms(2) have all: "\<forall>t \<in> set (threads s). wellformed t" by (simp add: balanced_def)
  have wfu: "\<forall>t \<in> set ((threads s)[i := rest]). wellformed t"
    using all wfr by (auto dest: set_update_subset_insert [THEN subsetD])
  from assms(2) run have sum: "wg s + 1 = sum_list (map owed (threads s))"
    by (simp add: balanced_def)
  have upd: "sum_list (map owed ((threads s)[i := rest])) =
      sum_list (map owed (threads s)) - owed (a # rest) + owed rest"
    using sum_list_owed_update [of i "threads s" rest] run by simp
  show ?thesis
  proof (cases a)
    case (Go t)
    with run wfu upd sum body_wf [of Join sys t] show ?thesis
      by (auto simp: balanced_def)
  next
    case Add
    with run wfu upd sum show ?thesis by (auto simp: balanced_def)
  next
    case Done
    with run wfu upd sum show ?thesis by (auto simp: balanced_def)
  next
    case (Exit n)
    with run wfu show ?thesis by (auto simp: balanced_def)
  next
    case (Print l)
    with run wfu upd sum show ?thesis by (auto simp: balanced_def)
  next
    case Wait
    with run wfu upd sum show ?thesis by (auto simp: balanced_def)
  next
    case (Reads n)
    with run wfu upd sum show ?thesis by (auto simp: balanced_def)
  qed
qed

lemma init_balanced: "balanced (init sys help recursive args)"
  by (simp add: balanced_def init_def main_wf)

lemma reachable_balanced:
  "reachable Join sys (init sys help recursive args) s \<Longrightarrow> balanced s"
  by (induction rule: reachable.induct) (auto intro: init_balanced step_balanced)

lemma sum_list_owed_zero:
  "\<forall>t \<in> set ts. wellformed t \<Longrightarrow> sum_list (map owed ts) \<le> 0 \<Longrightarrow> \<forall>t \<in> set ts. t = []"
proof (induction ts)
  case Nil
  then show ?case by simp
next
  case (Cons t ts)
  then have t: "0 \<le> owed t" by (simp add: wf_owed_nonneg)
  have ts: "0 \<le> sum_list (map owed ts)"
    by (rule sum_list_nonneg) (use Cons.prems in \<open>auto intro: wf_owed_nonneg\<close>)
  from t ts Cons.prems have "owed t = 0" and "sum_list (map owed ts) \<le> 0" by simp_all
  with Cons show ?case by (auto dest: wf_owed_zero)
qed

lemma visit_no_Wait: "Wait \<notin> set (snd (visit Join dir1 dir2 recursive f m))"
  by (auto simp: visit_def Let_def split: option.splits)

lemma diffDirs_no_Wait: "Wait \<notin> set (diffDirs Join sys dir1 dir2 recursive)"
proof (cases "os_ReadDir sys dir1")
  case None
  then show ?thesis by (simp add: diffDirs_def)
next
  case (Some files1)
  show ?thesis
  proof (cases "os_ReadDir sys dir2")
    case None
    with Some show ?thesis by (simp add: diffDirs_def)
  next
    case files2: (Some files2)
    obtain m' acts where fl:
      "first_loop Join dir1 dir2 recursive files1 (track files2 Map.empty) = (m', acts)"
      by (cases "first_loop Join dir1 dir2 recursive files1 (track files2 Map.empty)")
    have dd: "diffDirs Join sys dir1 dir2 recursive = acts @ second_loop dir2 files2 m' @ [Done]"
      using Some files2 fl by (simp add: diffDirs_def Let_def)
    have "Wait \<notin> set acts"
      using first_loop_concat [OF fl] visit_no_Wait by auto
    moreover have "Wait \<notin> set (second_loop dir2 files2 m')"
      using set_second_loop [of dir2 files2 m'] by auto
    ultimately show ?thesis by (simp add: dd)
  qed
qed

lemma diffDirs_last:
  "os_ReadDir sys dir1 = Some files1 \<Longrightarrow> os_ReadDir sys dir2 = Some files2 \<Longrightarrow>
   last (diffDirs Join sys dir1 dir2 recursive) = Done"
  by (simp add: diffDirs_def Let_def split: prod.splits)

text \<open>
  Claim C4, as amended. A directory task does not wait for the goroutines it starts:
  its body holds no \<open>wg.Wait()\<close>, and when both directories can be listed its last effect
  is \<open>wg.Done()\<close>. The one wait group of the process does the waiting: in every state
  the program can reach, under every interleaving, a \<open>wg.Wait()\<close> that can return finds
  every other goroutine finished.
\<close>

theorem wait_returns_after_all_tasks:
  assumes "reachable Join sys (init sys help recursive args) s"
    and "status s = None" and "i < length (threads s)" and "threads s ! i = Wait # rest"
    and "enabled s Wait"
  shows "(\<forall>j < length (threads s). j \<noteq> i \<longrightarrow> threads s ! j = []) \<and>
     Wait \<notin> set (diffDirs Join sys dir1 dir2 rec) \<and>
     (os_ReadDir sys dir1 \<noteq> None \<and> os_ReadDir sys dir2 \<noteq> None \<longrightarrow>
        last (diffDirs Join sys dir1 dir2 rec) = Done)"
proof -
  from reachable_balanced [OF assms(1)] have all: "\<forall>t \<in> set (threads s). wellformed t"
    and sum: "wg s + 1 = sum_list (map owed (threads s))"
    using assms(2) by (simp_all add: balanced_def)
  from all assms(3,4) have "wellformed (Wait # rest)" by (metis nth_mem)
  then have "1 \<le> owed (Wait # rest)" by (rule wf_owed) simp
  moreover have "sum_list (map owed ((threads s)[i := []])) =
      sum_list (map owed (threads s)) - owed (Wait # rest) + owed []"
    using sum_list_owed_update [of i "threads s" "[]"] assms(3,4) by simp
  moreover from assms(5) have "wg s = 0" by simp
  ultimately have le: "sum_list (map owed ((threads s)[i := []])) \<le> 0"
    using sum by simp
  have "\<forall>t \<in> set ((threads s)[i := []]). wellformed t"
    using all by (auto dest: set_update_subset_insert [THEN subsetD])
  from sum_list_owed_zero [OF this le] have z: "\<forall>t \<in> set ((threads s)[i := []]). t = []" .
  have others: "\<forall>j < length (threads s). j \<noteq> i \<longrightarrow> threads s ! j = []"
  proof (intro allI impI)
    fix j assume j: "j < length (threads s)" "j \<noteq> i"
    then have "(threads s)[i := []] ! j = threads s ! j" by simp
    moreover from j have "j < length ((threads s)[i := []])" by simp
    then have "(threads s)[i := []] ! j \<in> set ((threads s)[i := []])" by (rule nth_mem)
    ultimately show "threads s ! j = []" using z by metis
  qed
  with diffDirs_no_Wait [of Join sys dir1 dir2 rec] diffDirs_last [of sys dir1 _ dir2 _ Join rec]
  show ?thesis by auto
qed

section \<open>Runs that only print\<close>

lemma straight_step:
  assumes "step Join sys (straight ls n k) s'" and "k \<le> length ls"
  shows "(k < length ls \<and> s' = straight ls n (Suc k)) \<or> (k = length ls \<and> s' = finished ls n)"
  using assms(1)
proof (cases rule: step.cases)
  case (run i a rest)
  from run(3) have i: "i = 0" by (simp add: straight_def)
  show ?thesis
  proof (cases "k < length ls")
    case True
    then have d: "drop k ls = ls ! k # drop (Suc k) ls" by (simp add: Cons_nth_drop_Suc)
    from run(4) i d have a: "a = Print (ls ! k)" and rest: "rest = map Print (drop (Suc k) ls) @ [Exit n]"
      by (simp_all add: straight_def)
    from True have "take (Suc k) ls = take k ls @ [ls ! k]" by (simp add: take_Suc_conv_app_nth)
    with run(1) i a rest True show ?thesis by (simp add: straight_def)
  next
    case False
    with assms(2) have k: "k = length ls" by simp
    with run(4) i have "a = Exit n" and "rest = []" by (simp_all add: straight_def)
    with run(1) i k show ?thesis by (simp add: straight_def finished_def)
  qed
qed

lemma finished_stuck: "\<not> step Join sys (finished ls n) s'"
  by (auto elim: step.cases simp: finished_def)

lemma straight_reachable_only:
  "reachable Join sys (straight ls n 0) s \<Longrightarrow>
   (\<exists>k \<le> length ls. s = straight ls n k) \<or> s = finished ls n"
proof (induction rule: reachable.induct)
  case start
  then show ?case by auto
next
  case (more s s')
  from more.IH show ?case
  proof
    assume "\<exists>k \<le> length ls. s = straight ls n k"
    then obtain k where k: "k \<le> length ls" "s = straight ls n k" by blast
    from straight_step [OF more.hyps(2) [unfolded k(2)] k(1)] show ?thesis
      by (auto intro: Suc_leI)
  next
    assume "s = finished ls n"
    with more.hyps(2) finished_stuck show ?thesis by blast
  qed
qed

lemma straight_can_step:
  "k < length ls \<Longrightarrow> step Join sys (straight ls n k) (straight ls n (Suc k))"
proof -
  assume k: "k < length ls"
  then have d: "drop k ls = ls ! k # drop (Suc k) ls" by (simp add: Cons_nth_drop_Suc)
  from k have t: "take (Suc k) ls = take k ls @ [ls ! k]" by (simp add: take_Suc_conv_app_nth)
  have "step Join sys (straight ls n k)
     (perform Join sys (Print (ls ! k))
        ((straight ls n k)\<lparr>threads := (threads (straight ls n k))[0 := map Print (drop (Suc k) ls) @ [Exit n]],
           trace := trace (straight ls n k) @ [(0, Print (ls ! k))]\<rparr>))"
    by (rule step.run) (simp_all add: straight_def d)
  then show ?thesis by (simp add: straight_def t)
qed

lemma straight_can_finish:
  "step Join sys (straight ls n (length ls)) (finished ls n)"
proof -
  have "step Join sys (straight ls n (length ls))
     (perform Join sys (Exit n)
        ((straight ls n (length ls))\<lparr>threads := (threads (straight ls n (length ls)))[0 := []],
           trace := trace (straight ls n (length ls)) @ [(0, Exit n)]\<rparr>))"
    by (rule step.run) (simp_all add: straight_def)
  then show ?thesis by (simp add: straight_def finished_def)
qed

lemma straight_reaches: "k \<le> length ls \<Longrightarrow> reachable Join sys (straight ls n 0) (straight ls n k)"
proof (induction k)
  case 0
  show ?case by (rule reachable.start)
next
  case (Suc k)
  then have "reachable Join sys (straight ls n 0) (straight ls n k)" by simp
  moreover from Suc.prems have "step Join sys (straight ls n k) (straight ls n (Suc k))"
    by (simp add: straight_can_step)
  ultimately show ?case by (rule reachable.more)
qed

lemma straight_finishes: "reachable Join sys (straight ls n 0) (finished ls n)"
  using straight_reaches [of "length ls" ls Join sys n] straight_can_finish [of Join sys ls n]
  by (auto intro: reachable.more)

lemma init_straight:
  "main sys help recursive args = map Print ls @ [Exit n] \<Longrightarrow>
   init sys help recursive args = straight ls n 0"
  by (simp add: init_def straight_def)

text \<open>
  Claim C6. With a number of positional arguments other than two, \<open>main\<close> does what it
  does when help is requested: it prints the usage line and the flag defaults and ends
  the process with status 0. That end state is reached, every state on the way has one
  goroutine only, no \<open>go\<close> statement and no \<open>Read\<close> performed, and the process ends in no
  other way.
\<close>

theorem wrong_argument_count:
  assumes "length args \<noteq> 2"
  shows "main sys help recursive args = [Print Usage, Print Flag_defaults, Exit 0] \<and>
     main sys help recursive args = main sys True recursive args \<and>
     reachable Join sys (init sys help recursive args) (finished [Usage, Flag_defaults] 0) \<and>
     (\<forall>s. reachable Join sys (init sys help recursive args) s \<longrightarrow>
        reads s = 0 \<and> length (threads s) = 1 \<and>
        (\<forall>i t. (i, Go t) \<notin> set (trace s)) \<and> (\<forall>i n. (i, Reads n) \<notin> set (trace s)) \<and>
        (status s = None \<or> s = finished [Usage, Flag_defaults] 0))"
proof -
  have m: "main sys help recursive args = [Print Usage, Print Flag_defaults, Exit 0]"
    using assms by (simp add: main_def)
  then have i: "init sys help recursive args = straight [Usage, Flag_defaults] 0 0"
    by (intro init_straight) simp
  have "reads s = 0 \<and> length (threads s) = 1 \<and>
        (\<forall>i t. (i, Go t) \<notin> set (trace s)) \<and> (\<forall>i n. (i, Reads n) \<notin> set (trace s)) \<and>
        (status s = None \<or> s = finished [Usage, Flag_defaults] 0)"
    if "reachable Join sys (init sys help recursive args) s" for s
    using straight_reachable_only [OF that [unfolded i]]
    by (auto simp: straight_def finished_def dest: in_set_takeD)
  with m i straight_finishes [of Join sys "[Usage, Flag_defaults]" 0] show ?thesis
    by (simp add: main_def)
qed

text \<open>
  Claim C7. With two positional arguments of which \<open>os.Stat\<close> reports one as a directory
  and the other not, \<open>main\<close> prints that a file and a directory cannot be compared and
  ends the process with status 1. That end state is reached, every state on the way has
  one goroutine only, no \<open>go\<close> statement and no \<open>Read\<close> performed, and the process ends in
  no other way.
\<close>

theorem file_against_directory:
  assumes "\<not> help" and "length args = 2"
    and "os_Stat sys (args ! 0) = Some stat1" and "os_Stat sys (args ! 1) = Some stat2"
    and "stat1 \<noteq> stat2"
  shows "main sys help recursive args = [Print Cannot_compare, Exit 1] \<and>
     reachable Join sys (init sys help recursive args) (finished [Cannot_compare] 1) \<and>
     (\<forall>s. reachable Join sys (init sys help recursive args) s \<longrightarrow>
        reads s = 0 \<and> length (threads s) = 1 \<and>
        (\<forall>i t. (i, Go t) \<notin> set (trace s)) \<and> (\<forall>i n. (i, Reads n) \<notin> set (trace s)) \<and>
        (status s = None \<or> s = finished [Cannot_compare] 1))"
proof -
  have m: "main sys help recursive args = [Print Cannot_compare, Exit 1]"
    using assms by (auto simp: main_def Let_def)
  then have i: "init sys help recursive args = straight [Cannot_compare] 1 0"
    by (intro init_straight) simp
  have "reads s = 0 \<and> length (threads s) = 1 \<and>
        (\<forall>i t. (i, Go t) \<notin> set (trace s)) \<and> (\<forall>i n. (i, Reads n) \<notin> set (trace s)) \<and>
        (status s = None \<or> s = finished [Cannot_compare] 1)"
    if "reachable Join sys (init sys help recursive args) s" for s
    using straight_reachable_only [OF that [unfolded i]]
    by (auto simp: straight_def finished_def dest: in_set_takeD)
  with m i straight_finishes [of Join sys "[Cannot_compare]" 1] show ?thesis
    by simp
qed

section \<open>A recursive run\<close>

lemma nested_main:
  "main nested False True [''l'', ''r''] = [Add, Go (DiffDirs ''l'' ''r'' True), Wait, Exit 0]"
  by (simp add: main_def nested_def)

lemma nested_root:
  "diffDirs slash nested ''l'' ''r'' True =
     [Add, Go (DiffDirs ''l/sub'' ''r/sub'' True), Done]"
  by (simp add: diffDirs_def nested_def visit_def slash_def Let_def)

lemma nested_child:
  "diffDirs slash nested ''l/sub'' ''r/sub'' True = [Done]"
  by (simp add: diffDirs_def nested_def)

lemma step_at:
  "status s = None \<Longrightarrow> i < length (threads s) \<Longrightarrow> threads s ! i = a # rest \<Longrightarrow> enabled s a \<Longrightarrow>
   s' = perform Join sys a (s\<lparr>threads := (threads s)[i := rest], trace := trace s @ [(i, a)]\<rparr>) \<Longrightarrow>
   step Join sys s s'"
  by (simp add: step.run)

lemma nested_run:
  "reachable slash nested (init nested False True [''l'', ''r'']) parent_signalled"
proof -
  let ?s0 = "init nested False True [''l'', ''r'']"
  let ?s1 = "\<lparr>wg = 1, threads = [[Go (DiffDirs ''l'' ''r'' True), Wait, Exit 0]], printed = [],
     reads = 0, status = None, trace = take 1 nested_trace\<rparr>"
  let ?s2 = "\<lparr>wg = 1, threads = [[Wait, Exit 0], [Add, Go (DiffDirs ''l/sub'' ''r/sub'' True), Done]],
     printed = [], reads = 0, status = None, trace = take 2 nested_trace\<rparr>"
  let ?s3 = "\<lparr>wg = 2, threads = [[Wait, Exit 0], [Go (DiffDirs ''l/sub'' ''r/sub'' True), Done]],
     printed = [], reads = 0, status = None, trace = take 3 nested_trace\<rparr>"
  let ?s4 = "\<lparr>wg = 2, threads = [[Wait, Exit 0], [Done], [Done]],
     printed = [], reads = 0, status = None, trace = take 4 nested_trace\<rparr>"
  have 1: "step slash nested ?s0 ?s1"
    by (rule step_at [where i = 0 and a = Add])
       (simp_all add: init_def nested_main nested_trace_def)
  have 2: "step slash nested ?s1 ?s2"
    by (rule step_at [where i = 0 and a = "Go (DiffDirs ''l'' ''r'' True)"])
       (simp_all add: nested_root nested_trace_def)
  have 3: "step slash nested ?s2 ?s3"
    by (rule step_at [where i = 1 and a = Add]) (simp_all add: nested_trace_def)
  have 4: "step slash nested ?s3 ?s4"
    by (rule step_at [where i = 1 and a = "Go (DiffDirs ''l/sub'' ''r/sub'' True)"])
       (simp_all add: nested_child nested_trace_def)
  have 5: "step slash nested ?s4 parent_signalled"
    by (rule step_at [where i = 1 and a = Done])
       (simp_all add: parent_signalled_def nested_trace_def)
  from reachable.start [of slash nested ?s0] 1 have "reachable slash nested ?s0 ?s1"
    by (rule reachable.more)
  from this 2 have "reachable slash nested ?s0 ?s2" by (rule reachable.more)
  from this 3 have "reachable slash nested ?s0 ?s3" by (rule reachable.more)
  from this 4 have "reachable slash nested ?s0 ?s4" by (rule reachable.more)
  from this 5 show ?thesis by (rule reachable.more)
qed

lemma nested_run_on:
  "reachable slash nested (init nested False True [''l'', ''r'']) all_signalled"
proof -
  have "step slash nested parent_signalled all_signalled"
    by (rule step_at [where i = 2 and a = Done])
       (simp_all add: parent_signalled_def all_signalled_def)
  with nested_run show ?thesis by (rule reachable.more)
qed

text \<open>
  Claim C4 as stated fails. On two directories that each hold one empty directory, the
  recursive run reaches a state in which the task of the two roots has performed
  \<open>wg.Done()\<close> and is finished while the task it started for the two subdirectories has
  all of its body left: no barrier per call holds the parent back.
\<close>

theorem no_barrier_per_call_counterexample:
  "reachable slash nested (init nested False True [''l'', ''r'']) parent_signalled \<and>
   threads parent_signalled ! 1 = [] \<and> threads parent_signalled ! 2 = [Done] \<and>
   \<not> barrier_respected (trace parent_signalled)"
  using nested_run
  by (simp add: parent_signalled_def nested_trace_def barrier_respected_def)

theorem wait_returns_after_all_tasks_witness:
  "reachable slash nested (init nested False True [''l'', ''r'']) all_signalled \<and>
   status all_signalled = None \<and> 0 < length (threads all_signalled) \<and>
   threads all_signalled ! 0 = Wait # [Exit 0] \<and> enabled all_signalled Wait \<and>
   threads all_signalled ! 1 = [] \<and> threads all_signalled ! 2 = []"
proof -
  have h: "status all_signalled = None" "0 < length (threads all_signalled)"
    "threads all_signalled ! 0 = Wait # [Exit 0]" "enabled all_signalled Wait"
    by (simp_all add: all_signalled_def)
  from wait_returns_after_all_tasks [OF nested_run_on h, THEN conjunct1]
  have "\<forall>j < length (threads all_signalled). j \<noteq> 0 \<longrightarrow> threads all_signalled ! j = []" .
  then have "threads all_signalled ! 1 = []" "threads all_signalled ! 2 = []"
    by (simp_all add: all_signalled_def)
  with nested_run_on h show ?thesis by simp
qed

section \<open>Worked instances for the directory claims\<close>

lemma flat_first_loop:
  "snd (first_loop slash ''l'' ''r'' False left_listing (track right_listing Map.empty)) =
     [Add, Go (DiffFiles ''l/a.txt'' ''r/a.txt''),
      Print (Is_a_while ''l/b'' ''directory'' ''r/b'' ''file''),
      Print (Common_subdirectories ''l/sub'' ''r/sub''),
      Print (Only_in ''l'' ''x'')]"
  by (simp add: left_listing_def right_listing_def visit_def slash_def Let_def)

lemma flat_diffDirs:
  "diffDirs slash flat ''l'' ''r'' False =
     [Add, Go (DiffFiles ''l/a.txt'' ''r/a.txt''),
      Print (Is_a_while ''l/b'' ''directory'' ''r/b'' ''file''),
      Print (Common_subdirectories ''l/sub'' ''r/sub''),
      Print (Only_in ''l'' ''x''), Print (Only_in ''r'' ''y''), Done]"
  by (simp add: diffDirs_def flat_def left_listing_def right_listing_def visit_def slash_def
      Let_def)

theorem reconciliation_partition_witness:
  "snd (first_loop slash ''l'' ''r'' False left_listing (track right_listing Map.empty)) =
     [Add, Go (DiffFiles ''l/a.txt'' ''r/a.txt''),
      Print (Is_a_while ''l/b'' ''directory'' ''r/b'' ''file''),
      Print (Common_subdirectories ''l/sub'' ''r/sub''),
      Print (Only_in ''l'' ''x'')] \<and>
   only_in ''l'' (snd (first_loop slash ''l'' ''r'' False left_listing
       (track right_listing Map.empty))) = {''x''} \<and>
   only_in ''r'' (second_loop ''r'' right_listing (fst (first_loop slash ''l'' ''r'' False
       left_listing (track right_listing Map.empty)))) = {''y''} \<and>
   visited (fst (first_loop slash ''l'' ''r'' False left_listing
       (track right_listing Map.empty))) = {''a.txt'', ''b'', ''sub''}"
proof -
  let ?r = "first_loop slash ''l'' ''r'' False left_listing (track right_listing Map.empty)"
  have h: "?r = (fst ?r, snd ?r)" by simp
  have L: "Name ` set left_listing = {''a.txt'', ''b'', ''sub'', ''x''}"
    by (simp add: left_listing_def)
  have R: "Name ` set right_listing = {''a.txt'', ''b'', ''sub'', ''y''}"
    by (simp add: right_listing_def)
  have d: "{''a.txt'', ''b'', ''sub'', ''x''} - {''a.txt'', ''b'', ''sub'', ''y''} = {''x''}"
    "{''a.txt'', ''b'', ''sub'', ''y''} - {''a.txt'', ''b'', ''sub'', ''x''} = {''y''}"
    "{''a.txt'', ''b'', ''sub'', ''x''} \<inter> {''a.txt'', ''b'', ''sub'', ''y''} = {''a.txt'', ''b'', ''sub''}"
    by auto
  from reconciliation_partition [OF h refl L [symmetric] R [symmetric]] flat_first_loop d
  show ?thesis by simp
qed

theorem wrong_argument_count_witness:
  "length [''l''] \<noteq> 2 \<and>
   main flat False True [''l''] = [Print Usage, Print Flag_defaults, Exit 0] \<and>
   reachable slash flat (init flat False True [''l'']) (finished [Usage, Flag_defaults] 0) \<and>
   status (finished [Usage, Flag_defaults] 0) = Some 0 \<and>
   printed (finished [Usage, Flag_defaults] 0) = [Usage, Flag_defaults] \<and>
   reads (finished [Usage, Flag_defaults] 0) = 0"
proof -
  have h: "length [''l''] \<noteq> 2" by simp
  from wrong_argument_count [OF h, of flat False True slash] h show ?thesis
    by (simp add: finished_def)
qed

theorem file_against_directory_witness:
  "os_Stat flat ([''f'', ''l''] ! 0) = Some False \<and> os_Stat flat ([''f'', ''l''] ! 1) = Some True \<and>
   main flat False True [''f'', ''l''] = [Print Cannot_compare, Exit 1] \<and>
   reachable slash flat (init flat False True [''f'', ''l'']) (finished [Cannot_compare] 1) \<and>
   status (finished [Cannot_compare] 1) = Some 1 \<and>
   printed (finished [Cannot_compare] 1) = [Cannot_compare] \<and>
   reads (finished [Cannot_compare] 1) = 0"
proof -
  have h: "\<not> False" "length [''f'', ''l''] = 2"
    "os_Stat flat ([''f'', ''l''] ! 0) = Some False" "os_Stat flat ([''f'', ''l''] ! 1) = Some True"
    "False \<noteq> True"
    by (simp_all add: flat_def)
  from file_against_directory [OF h, of True slash] h show ?thesis
    by (simp add: finished_def)
qed

theorem common_subdirectories_not_entered_witness:
  "os_ReadDir flat ''l'' = Some left_listing \<and> os_ReadDir flat ''r'' = Some right_listing \<and>
   diffDirs slash flat ''l'' ''r'' False =
     [Add, Go (DiffFiles ''l/a.txt'' ''r/a.txt''),
      Print (Is_a_while ''l/b'' ''directory'' ''r/b'' ''file''),
      Print (Common_subdirectories ''l/sub'' ''r/sub''),
      Print (Only_in ''l'' ''x''), Print (Only_in ''r'' ''y''), Done] \<and>
   filter (\<lambda>f. IsDir f \<and> dir_in (track right_listing Map.empty) (Name f)) left_listing =
     [\<lparr>Name = ''sub'', IsDir = True\<rparr>] \<and>
   filter is_common (diffDirs slash flat ''l'' ''r'' False) =
     [Print (Common_subdirectories ''l/sub'' ''r/sub'')]"
proof -
  have h: "os_ReadDir flat ''l'' = Some left_listing" "os_ReadDir flat ''r'' = Some right_listing"
    by (simp_all add: flat_def)
  have f: "filter (\<lambda>f. IsDir f \<and> dir_in (track right_listing Map.empty) (Name f)) left_listing =
     [\<lparr>Name = ''sub'', IsDir = True\<rparr>]"
    by (simp add: left_listing_def right_listing_def dir_in_def)
  from common_subdirectories_not_entered [OF h refl, of slash, THEN conjunct1]
  have "filter is_common (diffDirs slash flat ''l'' ''r'' False) =
     [Print (Common_subdirectories ''l/sub'' ''r/sub'')]"
    by (simp add: f slash_def)
  with h f flat_diffDirs show ?thesis by simp
qed

theorem type_mismatch_labels_witness:
  "Print (Is_a_while ''l/b'' ''directory'' ''r/b'' ''file'') \<in>
     set (snd (first_loop slash ''l'' ''r'' False left_listing (track right_listing Map.empty))) \<and>
   render \<lparr>red = ([], []), yellow = ([], []), magenta = ([], [])\<rparr>
     (Is_a_while ''l/b'' ''directory'' ''r/b'' ''file'') =
     ''l/b is a directory while r/b is a file'' @ [CHR 0x0A] \<and>
   render \<lparr>red = ([], []), yellow = ([], []), magenta = ([], [])\<rparr>
     (Is_a_while ''l/b'' ''file'' ''r/b'' ''directory'') =
     ''l/b is a file while r/b is a directory'' @ [CHR 0x0A]"
proof -
  let ?r = "first_loop slash ''l'' ''r'' False left_listing (track right_listing Map.empty)"
  let ?pal = "\<lparr>red = ([], []), yellow = ([], []), magenta = ([], [])\<rparr>"
  let ?f = "\<lparr>Name = ''b'', IsDir = True\<rparr>"
  let ?f2 = "\<lparr>e = \<lparr>Name = ''b'', IsDir = False\<rparr>, c = False\<rparr>"
  have h: "?r = (fst ?r, snd ?r)" "?f \<in> set left_listing"
    "track right_listing Map.empty (Name ?f) = Some ?f2"
    "''l/b'' = slash ''l'' (Name ?f)" "''r/b'' = slash ''r'' (Name ?f)"
    by (simp_all add: left_listing_def right_listing_def slash_def)
  from type_mismatch_labels [OF h, of ?pal] show ?thesis
    by (simp add: paint_def)
qed

end
